theory Spec2Isabelle
  imports Main "HOL-Library.Word"
begin

unbundle bit_operations_syntax

section \<open>Seven-segment glyphs (active low)\<close>

text \<open>
  The sketch for the HC595 thermometer and clock defines one byte per displayable
  character.  A cleared bit lights the segment; bit 0 is the decimal point.
\<close>

type_synonym byte = "8 word"

definition ZERO :: byte where "ZERO = 0x03"
definition ONE :: byte where "ONE = 0x9F"
definition TWO :: byte where "TWO = 0x25"
definition THREE :: byte where "THREE = 0x0D"
definition FOUR :: byte where "FOUR = 0x99"
definition FIVE :: byte where "FIVE = 0x49"
definition SIX :: byte where "SIX = 0x41"
definition SEVEN :: byte where "SEVEN = 0x1F"
definition EIGHT :: byte where "EIGHT = 0x01"
definition NINE :: byte where "NINE = 0x09"
definition MINUS :: byte where "MINUS = 0xFD"
definition BLANK :: byte where "BLANK = 0xFF"
definition DEGREE :: byte where "DEGREE = 0x39"
definition ACHAR :: byte where "ACHAR = 0x11"
definition BCHAR :: byte where "BCHAR = 0xC1"
definition CCHAR :: byte where "CCHAR = 0x63"
definition DCHAR :: byte where "DCHAR = 0x85"
definition ECHAR :: byte where "ECHAR = 0x61"
definition FCHAR :: byte where "FCHAR = 0x71"
definition HCHARSMALL :: byte where "HCHARSMALL = 0xD1"
definition HCHARBIG :: byte where "HCHARBIG = 0x91"
definition JCHAR :: byte where "JCHAR = 0x07"
definition LCHAR :: byte where "LCHAR = 0xE3"
definition NCHAR :: byte where "NCHAR = 0xD5"
definition OCHAR :: byte where "OCHAR = 0xC5"
definition PCHAR :: byte where "PCHAR = 0x31"
definition RCHAR :: byte where "RCHAR = 0xF5"
definition TCHAR :: byte where "TCHAR = 0xE1"
definition UCHARSMALL :: byte where "UCHARSMALL = 0xC7"
definition UCHARBIG :: byte where "UCHARBIG = 0x83"
definition YCHAR :: byte where "YCHAR = 0x89"
definition QUESTION :: byte where "QUESTION = 0x35"
definition DP :: byte where "DP = 0xFE"

text \<open>
  The \<open>switch\<close> of \<open>LC4LEDDisplayMemWrite\<close> over the characters that append a glyph,
  in the order of its \<open>case\<close> labels.  The dot and the \<open>default\<close> label are handled
  by the loop itself, so both give \<open>None\<close> here.
\<close>

definition glyph :: "char \<Rightarrow> byte option" where
  "glyph c =
    (if c = CHR ''0'' then Some ZERO
     else if c = CHR ''1'' then Some ONE
     else if c = CHR ''2'' then Some TWO
     else if c = CHR ''3'' then Some THREE
     else if c = CHR ''4'' then Some FOUR
     else if c = CHR ''5'' then Some FIVE
     else if c = CHR ''6'' then Some SIX
     else if c = CHR ''7'' then Some SEVEN
     else if c = CHR ''8'' then Some EIGHT
     else if c = CHR ''9'' then Some NINE
     else if c = CHR ''-'' then Some MINUS
     else if c = CHR '' '' then Some BLANK
     else if c = CHR ''g'' then Some DEGREE
     else if c = CHR ''A'' then Some ACHAR
     else if c = CHR ''b'' then Some BCHAR
     else if c = CHR ''C'' then Some CCHAR
     else if c = CHR ''d'' then Some DCHAR
     else if c = CHR ''E'' then Some ECHAR
     else if c = CHR ''F'' then Some FCHAR
     else if c = CHR ''h'' then Some HCHARSMALL
     else if c = CHR ''H'' then Some HCHARBIG
     else if c = CHR ''J'' then Some JCHAR
     else if c = CHR ''L'' then Some LCHAR
     else if c = CHR ''n'' then Some NCHAR
     else if c = CHR ''o'' then Some OCHAR
     else if c = CHR ''P'' then Some PCHAR
     else if c = CHR ''r'' then Some RCHAR
     else if c = CHR ''t'' then Some TCHAR
     else if c = CHR ''u'' then Some UCHARSMALL
     else if c = CHR ''U'' then Some UCHARBIG
     else if c = CHR ''Y'' then Some YCHAR
     else None)"

section \<open>The encoder \<open>LC4LEDDisplayMemWrite\<close>\<close>

text \<open>
  C gives no meaning to a write outside an array.  The model stops at the first such
  access and reports the array and the index.
\<close>

datatype fault =
    DotsPosOutOfBounds int
  | DisplayBufOutOfBounds int
  | UninitialisedIndex

text \<open>
  The characters of a NUL-terminated string: what the \<open>while\<close> loop that computes
  \<open>len\<close> walks over.  The end of the list stands for the terminator when the list
  holds no NUL.
\<close>

definition c_str :: "string \<Rightarrow> string" where
  "c_str digits = takeWhile (\<lambda>c. c \<noteq> CHR 0x00) digits"

text \<open>
  The first \<open>for\<close> loop: \<open>if (digits[i] == '.') dotsPos[dots++] = i;\<close>.  The array
  \<open>dotsPos\<close> has four cells.
\<close>

fun find_dots :: "string \<Rightarrow> nat \<Rightarrow> nat \<Rightarrow> nat list \<Rightarrow> fault + nat \<times> nat list" where
  "find_dots [] i dots dotsPos = Inr (dots, dotsPos)"
| "find_dots (c # cs) i dots dotsPos =
    (if c = CHR ''.'' then
       (if dots < length dotsPos
        then find_dots cs (Suc i) (Suc dots) (dotsPos[dots := i])
        else Inl (DotsPosOutOfBounds (int dots)))
     else find_dots cs (Suc i) dots dotsPos)"

text \<open>The loop \<open>for (i = 1; i < dots; i++) if (dotsPos[i] == dotsPos[i - 1] + 1)\<close>.\<close>

definition consecutive_dots :: "nat \<Rightarrow> nat list \<Rightarrow> bool" where
  "consecutive_dots dots dotsPos =
     list_ex (\<lambda>i. dotsPos ! i = dotsPos ! (i - 1) + 1) [1..<dots]"

text \<open>
  The encoding loop.  Its state is \<open>bufIndex\<close>, the display memory and the \<open>error\<close>
  flag; the result is the state on reaching the label \<open>error:\<close>.  The \<open>default\<close> label
  sets the flag and goes on with the next character; the overflow test jumps out.
\<close>

fun encode_loop :: "string \<Rightarrow> nat \<Rightarrow> byte list \<Rightarrow> bool \<Rightarrow> fault + bool \<times> byte list" where
  "encode_loop [] bufIndex displayBuf error = Inr (error, displayBuf)"
| "encode_loop (c # cs) bufIndex displayBuf error =
    (if bufIndex > 3 \<and> c \<noteq> CHR ''.'' then Inr (True, displayBuf)
     else case glyph c of
       Some g \<Rightarrow>
         (if bufIndex < length displayBuf
          then encode_loop cs (Suc bufIndex) (displayBuf[bufIndex := g]) error
          else Inl (DisplayBufOutOfBounds (int bufIndex)))
     | None \<Rightarrow>
         (if c = CHR ''.'' then
            (if 0 < bufIndex \<and> bufIndex \<le> length displayBuf
             then encode_loop cs bufIndex
                    (displayBuf[bufIndex - 1 := displayBuf ! (bufIndex - 1) AND DP]) error
             else Inl (DisplayBufOutOfBounds (int bufIndex - 1)))
          else encode_loop cs bufIndex displayBuf True))"

text \<open>The block after the label \<open>error:\<close>.\<close>

definition error_pattern :: "byte list" where
  "error_pattern = [DP, QUESTION AND DP, QUESTION, BLANK]"

definition write_error :: "byte list \<Rightarrow> fault + byte list" where
  "write_error displayBuf =
     (if length displayBuf < 4 then Inl (DisplayBufOutOfBounds (int (length displayBuf)))
      else Inr (displayBuf[0 := DP, 1 := QUESTION AND DP, 2 := QUESTION, 3 := BLANK]))"

text \<open>Everything before the label: the value of \<open>error\<close> and the display memory there.\<close>

definition encode_body :: "string \<Rightarrow> byte list \<Rightarrow> fault + bool \<times> byte list" where
  "encode_body digits displayBuf =
    (let s = c_str digits; len = length s in
     if len > 8 \<or> len < 4 then Inr (True, displayBuf)
     else case find_dots s 0 0 [0, 0, 0, 0] of
       Inl f \<Rightarrow> Inl f
     | Inr (dots, dotsPos) \<Rightarrow>
         if int len - int dots \<noteq> 4 then Inr (True, displayBuf)
         else if dots > 0 \<and> dotsPos ! 0 = 0 then Inr (True, displayBuf)
         else if consecutive_dots dots dotsPos then Inr (True, displayBuf)
         else encode_loop s 0 displayBuf False)"

definition LC4LEDDisplayMemWrite :: "string \<Rightarrow> byte list \<Rightarrow> fault + byte list" where
  "LC4LEDDisplayMemWrite digits displayBuf =
    (case encode_body digits displayBuf of
       Inl f \<Rightarrow> Inl f
     | Inr (error, buf) \<Rightarrow> if error then write_error buf else Inr buf)"

subsection \<open>The encoder on a store\<close>

text \<open>
  The same function with \<open>dotsPos\<close> and \<open>displayBuf\<close> as cells of a store that reaches
  past both arrays.  A store outside an array is then carried out, on a cell that none
  of the variables of the function occupies, and the function goes on to its end.
  \<open>stack\<close> is what the cells at and after \<open>dotsPos\<close> hold when the function is entered;
  the initialiser clears the four cells of the array.
\<close>

fun find_dots_store :: "string \<Rightarrow> nat \<Rightarrow> nat \<Rightarrow> (nat \<Rightarrow> nat) \<Rightarrow> nat \<times> (nat \<Rightarrow> nat)" where
  "find_dots_store [] i dots dotsPos = (dots, dotsPos)"
| "find_dots_store (c # cs) i dots dotsPos =
    (if c = CHR ''.'' then find_dots_store cs (Suc i) (Suc dots) (dotsPos(dots := i))
     else find_dots_store cs (Suc i) dots dotsPos)"

definition consecutive_dots_store :: "nat \<Rightarrow> (nat \<Rightarrow> nat) \<Rightarrow> bool" where
  "consecutive_dots_store dots dotsPos =
     list_ex (\<lambda>i. dotsPos i = dotsPos (i - 1) + 1) [1..<dots]"

fun encode_loop_store :: "string \<Rightarrow> int \<Rightarrow> (int \<Rightarrow> byte) \<Rightarrow> bool \<Rightarrow> bool \<times> (int \<Rightarrow> byte)" where
  "encode_loop_store [] bufIndex mem error = (error, mem)"
| "encode_loop_store (c # cs) bufIndex mem error =
    (if bufIndex > 3 \<and> c \<noteq> CHR ''.'' then (True, mem)
     else case glyph c of
       Some g \<Rightarrow> encode_loop_store cs (bufIndex + 1) (mem(bufIndex := g)) error
     | None \<Rightarrow>
         (if c = CHR ''.''
          then encode_loop_store cs bufIndex
                 (mem(bufIndex - 1 := mem (bufIndex - 1) AND DP)) error
          else encode_loop_store cs bufIndex mem True))"

definition encode_body_store :: "string \<Rightarrow> (nat \<Rightarrow> nat) \<Rightarrow> (int \<Rightarrow> byte) \<Rightarrow> bool \<times> (int \<Rightarrow> byte)" where
  "encode_body_store digits stack mem =
    (let s = c_str digits; len = length s in
     if len > 8 \<or> len < 4 then (True, mem)
     else
       (let (dots, dotsPos) = find_dots_store s 0 0 (stack(0 := 0, 1 := 0, 2 := 0, 3 := 0)) in
        if int len - int dots \<noteq> 4 then (True, mem)
        else if dots > 0 \<and> dotsPos 0 = 0 then (True, mem)
        else if consecutive_dots_store dots dotsPos then (True, mem)
        else encode_loop_store s 0 mem False))"

definition LC4LEDDisplayMemWrite_store ::
  "string \<Rightarrow> (nat \<Rightarrow> nat) \<Rightarrow> (int \<Rightarrow> byte) \<Rightarrow> int \<Rightarrow> byte" where
  "LC4LEDDisplayMemWrite_store digits stack mem =
    (let (error, mem) = encode_body_store digits stack mem in
     if error then mem(0 := DP, 1 := QUESTION AND DP, 2 := QUESTION, 3 := BLANK) else mem)"

section \<open>The clock and its adjustment\<close>

definition SMIDLE :: byte where "SMIDLE = 0"
definition SMTHOUR :: byte where "SMTHOUR = 1"
definition SMUHOUR :: byte where "SMUHOUR = 2"
definition SMTMINUTE :: byte where "SMTMINUTE = 3"
definition SMUMINUTE :: byte where "SMUMINUTE = 4"

definition BNONE :: byte where "BNONE = 0"
definition BSETUP :: byte where "BSETUP = 1"
definition BUP :: byte where "BUP = 2"

text \<open>The sketch writes \<open>NULL\<close> for the string terminator.\<close>

definition NUL :: char where "NUL = CHR 0x00"

text \<open>
  The globals that the clock code reads and writes: \<open>byte clock[5]\<close> (tens and units of
  hours, tens and units of minutes, seconds), \<open>byte tmpClock[4]\<close>, \<open>byte setupMode\<close>,
  \<open>char timeString[7]\<close>, \<open>byte displayBuf[4]\<close> and \<open>boolean displaySwitch\<close>.
\<close>

record sketch =
  clock :: "byte list"
  tmpClock :: "byte list"
  setupMode :: byte
  timeString :: string
  displayBuf :: "byte list"
  displaySwitch :: bool

text \<open>
  \<open>tmpClock[i] + '0'\<close> stored into a \<open>char\<close>: the sum is an \<open>int\<close>, the store keeps
  its low eight bits.
\<close>

definition digit_char :: "byte \<Rightarrow> char" where
  "digit_char b = char_of (unat b + of_char CHR ''0'')"

text \<open>The loop \<open>for (i = 0; i < 4; i++) dst[i] = src[i];\<close>, unrolled.\<close>

definition copy4 :: "byte list \<Rightarrow> byte list \<Rightarrow> byte list" where
  "copy4 dst src = dst[0 := src ! 0, 1 := src ! 1, 2 := src ! 2, 3 := src ! 3]"

definition clockSetup :: "byte \<Rightarrow> sketch \<Rightarrow> fault + sketch" where
  "clockSetup setupmode s =
    (let tmp = (if setupmode = SMTHOUR then copy4 (tmpClock s) (clock s) else tmpClock s);
         ts = (timeString s)[5 := NUL];
         ts = ts[4 := (if setupmode = SMUMINUTE then digit_char (tmp ! 3) else CHR '' '')];
         ts = ts[3 := (if setupmode \<ge> SMTMINUTE then digit_char (tmp ! 2) else CHR '' '')];
         ts = ts[2 := CHR ''.''];
         ts = ts[1 := (if setupmode \<ge> SMUHOUR then digit_char (tmp ! 1) else CHR '' '')];
         ts = (if setupmode \<ge> SMTHOUR then ts[0 := digit_char (tmp ! 0)] else ts)
     in case LC4LEDDisplayMemWrite ts (displayBuf s) of
          Inl f \<Rightarrow> Inl f
        | Inr buf \<Rightarrow> Inr (s\<lparr>tmpClock := tmp, timeString := ts, displayBuf := buf\<rparr>))"

text \<open>
  The \<open>switch\<close> of \<open>clockAdjust\<close>: the new \<open>tmpClock\<close> with the indices \<open>i\<close> and \<open>j\<close>.
  The \<open>default\<close> label leaves both indices without a value.
\<close>

definition adjust_switch :: "byte \<Rightarrow> byte list \<Rightarrow> (byte list \<times> nat \<times> nat) option" where
  "adjust_switch setupmode t =
    (if setupmode = SMTHOUR then
       (let t = t[0 := t ! 0 + 1];
            t = (if t ! 0 \<ge> 3 then t[0 := 0] else t)
        in Some (t, 0, 0))
     else if setupmode = SMUHOUR then
       (let t = t[1 := t ! 1 + 1];
            t = (if (t ! 0 < 2 \<and> t ! 1 \<ge> 10) \<or> (t ! 0 = 2 \<and> t ! 1 \<ge> 4)
                 then t[1 := 0] else t)
        in Some (t, 1, 1))
     else if setupmode = SMTMINUTE then
       (let t = t[2 := t ! 2 + 1];
            t = (if t ! 2 \<ge> 6 then t[2 := 0] else t)
        in Some (t, 2, 3))
     else if setupmode = SMUMINUTE then
       (let t = t[3 := t ! 3 + 1];
            t = (if t ! 3 \<ge> 10 then t[3 := 0] else t)
        in Some (t, 3, 4))
     else None)"

definition clockAdjust :: "byte \<Rightarrow> sketch \<Rightarrow> fault + sketch" where
  "clockAdjust setupmode s =
    (case adjust_switch setupmode (tmpClock s) of
       None \<Rightarrow> Inl UninitialisedIndex
     | Some (t, i, j) \<Rightarrow>
         (let ts = (timeString s)[j := digit_char (t ! i)]
          in case LC4LEDDisplayMemWrite ts (displayBuf s) of
               Inl f \<Rightarrow> Inl f
             | Inr buf \<Rightarrow> Inr (s\<lparr>tmpClock := t, timeString := ts, displayBuf := buf\<rparr>)))"

text \<open>
  The part of \<open>loop\<close> that acts on the value returned by \<open>readClockButtons\<close>.
\<close>

definition loop_button :: "byte \<Rightarrow> sketch \<Rightarrow> fault + sketch" where
  "loop_button button s =
    (if button = BSETUP then
       (let s = s\<lparr>setupMode := setupMode s + 1\<rparr>;
            s = (if setupMode s > SMUMINUTE
                 then s\<lparr>setupMode := SMIDLE,
                        clock := (copy4 (clock s) (tmpClock s))[4 := 0],
                        displaySwitch := (if \<not> displaySwitch s then \<not> displaySwitch s
                                          else displaySwitch s)\<rparr>
                 else s)
        in if setupMode s \<noteq> SMIDLE then clockSetup (setupMode s) s else Inr s)
     else if button = BUP then
       (if setupMode s \<noteq> SMIDLE then clockAdjust (setupMode s) s else Inr s)
     else Inr s)"

text \<open>A run of button values through \<open>loop\<close>, stopping at the first fault.\<close>

fun loop_buttons :: "byte list \<Rightarrow> sketch \<Rightarrow> fault + sketch" where
  "loop_buttons [] s = Inr s"
| "loop_buttons (b # bs) s =
    (case loop_button b s of Inl f \<Rightarrow> Inl f | Inr s' \<Rightarrow> loop_buttons bs s')"

text \<open>
  The timer 1 interrupt runs once a second.  This is the body of its first \<open>if\<close>,
  entered every sixtieth call: the cascade through the four digits of the clock.
\<close>

definition minute_cascade :: "byte list \<Rightarrow> byte list" where
  "minute_cascade c =
    (let c = c[4 := 0];
         c = c[3 := c ! 3 + 1];
         c = (if c ! 3 = 10 then (c[3 := 0])[2 := c ! 2 + 1] else c);
         c = (if c ! 2 = 6 then (c[2 := 0])[1 := c ! 1 + 1] else c);
         c = (if (c ! 0 < 2 \<and> c ! 1 = 10) \<or> (c ! 0 = 2 \<and> c ! 1 = 4)
              then (c[1 := 0])[0 := c ! 0 + 1] else c);
         c = (if c ! 0 = 3 then c[0 := 0] else c)
     in c)"

text \<open>
  The interrupt routine up to the end of that \<open>if\<close>: outside the setup modes a minute
  change also rewrites the digits of \<open>timeString\<close>.  What follows in the routine drives
  the display and the temperature sensor.
\<close>

definition TIMER1_COMPA_clock :: "sketch \<Rightarrow> sketch" where
  "TIMER1_COMPA_clock s =
    (let c = (clock s)[4 := clock s ! 4 + 1] in
     if c ! 4 = 60 then
       (let c = minute_cascade c;
            ts = (if setupMode s = 0
                  then (timeString s)[0 := digit_char (c ! 0), 1 := digit_char (c ! 1),
                                      3 := digit_char (c ! 2), 4 := digit_char (c ! 3)]
                  else timeString s)
        in s\<lparr>clock := c, timeString := ts\<rparr>)
     else s\<lparr>clock := c\<rparr>)"

text \<open>
  In a setup mode the routine does nothing more than this: its second \<open>if\<close>, like the
  rewriting of \<open>timeString\<close>, runs only when \<open>setupMode\<close> is 0.  A number of ticks of the
  timer:
\<close>

fun ticks :: "nat \<Rightarrow> sketch \<Rightarrow> sketch" where
  "ticks 0 s = s"
| "ticks (Suc n) s = ticks n (TIMER1_COMPA_clock s)"

text \<open>The initial values of these globals.\<close>

definition initial_sketch :: sketch where
  "initial_sketch =
    \<lparr>clock = [0, 0, 0, 0, 0], tmpClock = [0, 0, 0, 0], setupMode = SMIDLE,
     timeString = [CHR ''0'', CHR ''0'', CHR ''.'', CHR ''0'', CHR ''0'', NUL, NUL],
     displayBuf = [0, 0, 0, 0], displaySwitch = True\<rparr>"

section \<open>The debounced button reader\<close>

datatype level = LOW | HIGH

text \<open>
  The three globals kept for one button: the debounced state, the previous raw reading
  and the time of the last change of the raw reading.  \<open>millis()\<close> is a 32-bit unsigned
  counter, and the comparison with \<open>debounceDelay\<close> is unsigned.
\<close>

record debounce =
  buttonState :: level
  lastButtonState :: level
  lastDebounceTime :: "32 word"

definition debounceDelay :: "32 word" where "debounceDelay = 50"

text \<open>
  What one poll supplies for one button: the raw reading, the value of \<open>millis()\<close>
  stored when the reading has changed, and its value in the comparison.
\<close>

record reading =
  pin :: level
  millis_reset :: "32 word"
  millis_check :: "32 word"

text \<open>
  The block that \<open>readClockButtons\<close> runs for a button; the source has it twice, once
  with the globals of the setup button and once with those of the up button.  The
  result says whether the button counts as pressed.
\<close>

definition debounce_step :: "reading \<Rightarrow> debounce \<Rightarrow> bool \<times> debounce" where
  "debounce_step r d =
    (let t = (if pin r \<noteq> lastButtonState d then millis_reset r else lastDebounceTime d);
         changed = (millis_check r - t > debounceDelay \<and> pin r \<noteq> buttonState d)
     in (changed \<and> pin r = HIGH,
         \<lparr>buttonState = (if changed then pin r else buttonState d),
          lastButtonState = pin r,
          lastDebounceTime = t\<rparr>))"





section \<open>Notions used to state the properties\<close>

subsection \<open>Inputs of the encoder\<close>

text \<open>
  The validation rules as the specification words them, on the characters before the
  terminator: a length between 4 and 8, no dot in front, no two dots side by side,
  exactly four characters that are not dots, and only characters of the glyph set.
\<close>

definition leading_dot :: "string \<Rightarrow> bool" where
  "leading_dot s = (case s of [] \<Rightarrow> False | c # _ \<Rightarrow> c = CHR ''.'')"

fun adjacent_dots :: "string \<Rightarrow> bool" where
  "adjacent_dots (a # b # cs) = ((a = CHR ''.'' \<and> b = CHR ''.'') \<or> adjacent_dots (b # cs))"
| "adjacent_dots _ = False"

definition nondots :: "string \<Rightarrow> nat" where
  "nondots s = length (filter (\<lambda>c. c \<noteq> CHR ''.'') s)"

definition supported :: "char \<Rightarrow> bool" where
  "supported c = (c = CHR ''.'' \<or> glyph c \<noteq> None)"

definition valid_input :: "string \<Rightarrow> bool" where
  "valid_input s =
    (4 \<le> length s \<and> length s \<le> 8 \<and> \<not> leading_dot s \<and> \<not> adjacent_dots s
     \<and> nondots s = 4 \<and> list_all supported s)"

text \<open>
  The encoding as the specification words it: from left to right, a character other
  than the dot appends its glyph, a dot ANDs the decimal point into the byte appended
  last.
\<close>

fun spec_encode :: "string \<Rightarrow> byte list \<Rightarrow> byte list" where
  "spec_encode [] out = out"
| "spec_encode (c # cs) out =
    (if c = CHR ''.'' then spec_encode cs (butlast out @ [last out AND DP])
     else spec_encode cs (out @ [the (glyph c)]))"

text \<open>The four cells of \<open>displayBuf\<close> in a store.\<close>

definition cells :: "(int \<Rightarrow> byte) \<Rightarrow> byte list" where
  "cells mem = map mem [0, 1, 2, 3]"

text \<open>
  Auxiliary notions for the proofs: the positions of the dots of a string whose first
  character has index \<open>i\<close>, a list with two neighbours \<open>n\<close> and \<open>n + 1\<close>, and the bytes
  that differ from the question mark in a segment other than the decimal point.
\<close>

fun dot_positions :: "string \<Rightarrow> nat \<Rightarrow> nat list" where
  "dot_positions [] i = []"
| "dot_positions (c # cs) i =
    (if c = CHR ''.'' then i # dot_positions cs (Suc i) else dot_positions cs (Suc i))"

fun succ_pair :: "nat list \<Rightarrow> bool" where
  "succ_pair (a # b # xs) = (b = a + 1 \<or> succ_pair (b # xs))"
| "succ_pair _ = False"

definition keeps_clear :: "byte \<Rightarrow> bool" where
  "keeps_clear x = (x AND DP \<noteq> QUESTION AND DP)"

subsection \<open>Clock values\<close>

text \<open>
  A clock array within its ranges: tens of hours up to 2, hours up to 23, tens of
  minutes up to 5, both units up to 9, seconds up to 59.
\<close>

definition valid_clock :: "byte list \<Rightarrow> bool" where
  "valid_clock c =
    (length c = 5 \<and> c ! 0 \<le> 2 \<and> c ! 1 \<le> 9 \<and> unat (c ! 0) * 10 + unat (c ! 1) \<le> 23
     \<and> c ! 2 \<le> 5 \<and> c ! 3 \<le> 9 \<and> c ! 4 \<le> 59)"

text \<open>
  The last two \<open>if\<close>s of the cascade, on the two digits of the hour alone.
\<close>

definition hour_carry :: "byte \<Rightarrow> byte \<Rightarrow> byte \<times> byte" where
  "hour_carry h1 h0 =
     (let (h1, h0) = (if (h1 < 2 \<and> h0 = 10) \<or> (h1 = 2 \<and> h0 = 4) then (h1 + 1, 0) else (h1, h0))
      in (if h1 = 3 then 0 else h1, h0))"

text \<open>The hour that the first two digits of a clock array stand for.\<close>

definition hours_value :: "byte list \<Rightarrow> nat" where
  "hours_value t = unat (t ! 0) * 10 + unat (t ! 1)"

text \<open>
  The arrays with the sizes of their declarations, a clock whose four digits are at
  most 9, and \<open>timeString\<close> as \<open>clockSetup\<close> leaves it: two characters with a glyph,
  the dot, two more such characters and the terminator.
\<close>

definition wf_sketch :: "sketch \<Rightarrow> bool" where
  "wf_sketch s =
    (length (clock s) = 5 \<and> length (tmpClock s) = 4 \<and> length (timeString s) = 7
     \<and> length (displayBuf s) = 4)"

definition digits_ok :: "byte list \<Rightarrow> bool" where
  "digits_ok t = list_all (\<lambda>b. b \<le> 9) (take 4 t)"

definition setup_string :: "string \<Rightarrow> bool" where
  "setup_string ts =
    (length ts = 7 \<and> glyph (ts ! 0) \<noteq> None \<and> glyph (ts ! 1) \<noteq> None \<and> ts ! 2 = CHR ''.''
     \<and> glyph (ts ! 3) \<noteq> None \<and> glyph (ts ! 4) \<noteq> None \<and> ts ! 5 = NUL)"

subsection \<open>Sequences of polls\<close>

text \<open>
  For one button: the number of polls that report it pressed, and the state after the
  polls.
\<close>

fun presses :: "reading list \<Rightarrow> debounce \<Rightarrow> nat" where
  "presses [] d = 0"
| "presses (r # rs) d =
    (if fst (debounce_step r d) then 1 else 0) + presses rs (snd (debounce_step r d))"



text \<open>
  A button seen at the active level in every poll, one seen at the idle level in every
  poll, and a sequence with a poll later than \<open>since\<close> by more than the interval.
\<close>

definition held :: "reading list \<Rightarrow> bool" where
  "held rs = list_all (\<lambda>r. pin r = HIGH) rs"







section \<open>Properties of the encoder\<close>

lemmas glyph_defs =
  ZERO_def ONE_def TWO_def THREE_def FOUR_def FIVE_def SIX_def SEVEN_def EIGHT_def
  NINE_def MINUS_def BLANK_def DEGREE_def ACHAR_def BCHAR_def CCHAR_def DCHAR_def
  ECHAR_def FCHAR_def HCHARSMALL_def HCHARBIG_def JCHAR_def LCHAR_def NCHAR_def
  OCHAR_def PCHAR_def RCHAR_def TCHAR_def UCHARSMALL_def UCHARBIG_def YCHAR_def
  QUESTION_def DP_def




subsection \<open>The dot positions and the two checks on them\<close>

lemma dot_positions_ge: "x \<in> set (dot_positions cs i) \<Longrightarrow> i \<le> x"
  by (induction cs arbitrary: i) (auto split: if_splits dest: Suc_leD)

lemma length_dot_positions:
  "length (dot_positions cs i) + nondots cs = length cs"
  by (induction cs arbitrary: i) (auto simp: nondots_def)

lemma find_dots_positions:
  "dots + length (dot_positions cs i) \<le> length dotsPos \<Longrightarrow>
   find_dots cs i dots dotsPos =
     Inr (dots + length (dot_positions cs i),
          take dots dotsPos @ dot_positions cs i
            @ drop (dots + length (dot_positions cs i)) dotsPos)"
proof (induction cs arbitrary: i dots dotsPos)
  case Nil
  then show ?case by simp
next
  case (Cons c cs)
  show ?case
  proof (cases "c = CHR ''.''")
    case True
    with Cons.prems have lt: "dots < length dotsPos" by simp
    have "take (Suc dots) (dotsPos[dots := i]) = take dots dotsPos @ [i]"
      using lt by (simp add: take_Suc_conv_app_nth)
    with True lt Cons.prems Cons.IH [of "Suc dots" "Suc i" "dotsPos[dots := i]"]
    show ?thesis by simp
  next
    case False
    with Cons.prems Cons.IH [of dots "Suc i" dotsPos] show ?thesis by simp
  qed
qed

lemma find_dots_overflow:
  "length dotsPos < dots + length (dot_positions cs i) \<Longrightarrow> dots \<le> length dotsPos \<Longrightarrow>
   find_dots cs i dots dotsPos = Inl (DotsPosOutOfBounds (int (length dotsPos)))"
proof (induction cs arbitrary: i dots dotsPos)
  case Nil
  then show ?case by simp
next
  case (Cons c cs)
  show ?case
  proof (cases "c = CHR ''.''")
    case True
    show ?thesis
    proof (cases "dots < length dotsPos")
      case lt: True
      with True Cons.prems Cons.IH [of "dotsPos[dots := i]" "Suc dots" "Suc i"]
      show ?thesis by simp
    next
      case False
      with Cons.prems have "dots = length dotsPos" by simp
      with True show ?thesis by simp
    qed
  next
    case False
    with Cons.prems Cons.IH [of dotsPos dots "Suc i"] show ?thesis by simp
  qed
qed

lemma succ_pair_far: "\<forall>x \<in> set ps. i + 2 \<le> x \<Longrightarrow> succ_pair (i # ps) = succ_pair ps"
  by (cases ps) auto

lemma succ_pair_dot_positions: "succ_pair (dot_positions cs i) = adjacent_dots cs"
proof (induction cs arbitrary: i rule: adjacent_dots.induct)
  case (1 a b cs)
  show ?case
  proof (cases "a = CHR ''.''")
    case False
    with 1 [of "Suc i"] show ?thesis by simp
  next
    case a: True
    show ?thesis
    proof (cases "b = CHR ''.''")
      case True
      with a show ?thesis by simp
    next
      case False
      have "\<forall>x \<in> set (dot_positions cs (Suc (Suc i))). i + 2 \<le> x"
        using dot_positions_ge by fastforce
      then have "succ_pair (i # dot_positions cs (Suc (Suc i)))
                 = succ_pair (dot_positions cs (Suc (Suc i)))"
        by (rule succ_pair_far)
      with a False 1 [of "Suc i"] show ?thesis by simp
    qed
  qed
qed simp_all

lemma succ_pair_nth:
  "succ_pair ps = (\<exists>k. Suc k < length ps \<and> ps ! Suc k = ps ! k + 1)"
proof (induction ps rule: succ_pair.induct)
  case (1 a b xs)
  have "(\<exists>k. Suc k < length (a # b # xs) \<and> (a # b # xs) ! Suc k = (a # b # xs) ! k + 1)
        = (b = a + 1 \<or> (\<exists>k. Suc k < length (b # xs) \<and> (b # xs) ! Suc k = (b # xs) ! k + 1))"
    (is "?L = ?R")
  proof
    assume ?L
    then obtain k where k: "Suc k < length (a # b # xs)"
      "(a # b # xs) ! Suc k = (a # b # xs) ! k + 1" by blast
    show ?R
    proof (cases k)
      case 0
      with k show ?thesis by simp
    next
      case (Suc j)
      with k have "Suc j < length (b # xs) \<and> (b # xs) ! Suc j = (b # xs) ! j + 1" by simp
      then show ?thesis by blast
    qed
  next
    assume ?R
    then show ?L
    proof
      assume "b = a + 1"
      then have "Suc 0 < length (a # b # xs) \<and> (a # b # xs) ! Suc 0 = (a # b # xs) ! 0 + 1"
        by simp
      then show ?L by blast
    next
      assume "\<exists>k. Suc k < length (b # xs) \<and> (b # xs) ! Suc k = (b # xs) ! k + 1"
      then obtain k where "Suc k < length (b # xs)" "(b # xs) ! Suc k = (b # xs) ! k + 1"
        by blast
      then have "Suc (Suc k) < length (a # b # xs)
                 \<and> (a # b # xs) ! Suc (Suc k) = (a # b # xs) ! Suc k + 1" by simp
      then show ?L by blast
    qed
  qed
  with 1 show ?case by simp
qed simp_all

lemma consecutive_dots_append:
  "consecutive_dots (length ps) (ps @ rest) = succ_pair ps"
proof -
  have "consecutive_dots (length ps) (ps @ rest)
        = (\<exists>i. 1 \<le> i \<and> i < length ps \<and> (ps @ rest) ! i = (ps @ rest) ! (i - 1) + 1)"
    by (auto simp: consecutive_dots_def list_ex_iff)
  also have "\<dots> = (\<exists>k. Suc k < length ps \<and> ps ! Suc k = ps ! k + 1)"
  proof
    assume "\<exists>i. 1 \<le> i \<and> i < length ps \<and> (ps @ rest) ! i = (ps @ rest) ! (i - 1) + 1"
    then obtain i where i: "1 \<le> i" "i < length ps"
      "(ps @ rest) ! i = (ps @ rest) ! (i - 1) + 1" by blast
    then obtain k where "i = Suc k" by (cases i) auto
    with i have "Suc k < length ps \<and> ps ! Suc k = ps ! k + 1" by (simp add: nth_append)
    then show "\<exists>k. Suc k < length ps \<and> ps ! Suc k = ps ! k + 1" by blast
  next
    assume "\<exists>k. Suc k < length ps \<and> ps ! Suc k = ps ! k + 1"
    then obtain k where "Suc k < length ps" "ps ! Suc k = ps ! k + 1" by blast
    then have "1 \<le> Suc k \<and> Suc k < length ps
               \<and> (ps @ rest) ! Suc k = (ps @ rest) ! (Suc k - 1) + 1"
      by (simp add: nth_append)
    then show "\<exists>i. 1 \<le> i \<and> i < length ps \<and> (ps @ rest) ! i = (ps @ rest) ! (i - 1) + 1"
      by blast
  qed
  finally show ?thesis by (simp add: succ_pair_nth)
qed

lemma dot_positions_hd:
  assumes ne: "dot_positions cs i \<noteq> []"
  shows "(hd (dot_positions cs i) = i) = leading_dot cs"
proof (cases cs)
  case Nil
  with ne show ?thesis by simp
next
  case (Cons c cs')
  show ?thesis
  proof (cases "c = CHR ''.''")
    case True
    with Cons show ?thesis by (simp add: leading_dot_def)
  next
    case False
    with Cons ne have "hd (dot_positions cs' (Suc i)) \<in> set (dot_positions cs' (Suc i))"
      by simp
    then have "Suc i \<le> hd (dot_positions cs' (Suc i))" by (rule dot_positions_ge)
    with Cons False show ?thesis by (simp add: leading_dot_def)
  qed
qed

subsection \<open>The encoding loop\<close>

lemma glyph_dot [simp]: "glyph CHR ''.'' = None"
  by (simp add: glyph_def)

lemma nondots_Nil [simp]: "nondots [] = 0"
  by (simp add: nondots_def)

lemma nondots_Cons:
  "nondots (c # cs) = (if c = CHR ''.'' then nondots cs else Suc (nondots cs))"
  by (simp add: nondots_def)

lemma take_update_last:
  assumes "0 < n" "n \<le> length xs"
  shows "take n (xs[n - 1 := v]) = butlast (take n xs) @ [v]"
proof -
  from assms obtain m where m: "n = Suc m" by (cases n) auto
  with assms have "m < length xs" by simp
  then have "take (Suc m) (xs[m := v]) = take m xs @ [v]"
    by (simp add: take_Suc_conv_app_nth)
  moreover have "butlast (take (Suc m) xs) = take m xs"
    using \<open>m < length xs\<close> by (simp add: butlast_take)
  ultimately show ?thesis using m by simp
qed

lemma last_take:
  assumes "0 < n" "n \<le> length xs"
  shows "last (take n xs) = xs ! (n - 1)"
proof -
  from assms obtain m where m: "n = Suc m" by (cases n) auto
  with assms have "take (Suc m) xs = take m xs @ [xs ! m]"
    by (simp add: take_Suc_conv_app_nth)
  with m show ?thesis by simp
qed

lemma encode_loop_supported:
  assumes "list_all supported cs" "bufIndex + nondots cs \<le> length buf" "length buf = 4"
    "leading_dot cs \<longrightarrow> 0 < bufIndex"
  shows "encode_loop cs bufIndex buf err =
           Inr (err, spec_encode cs (take bufIndex buf) @ drop (bufIndex + nondots cs) buf)"
  using assms
proof (induction cs arbitrary: bufIndex buf)
  case Nil
  then show ?case by (simp add: nondots_def)
next
  case (Cons c cs)
  show ?case
  proof (cases "c = CHR ''.''")
    case True
    with Cons.prems have pos: "0 < bufIndex" and le: "bufIndex \<le> length buf"
      by (simp_all add: leading_dot_def nondots_Cons)
    let ?v = "buf ! (bufIndex - 1) AND DP"
    let ?buf = "buf[bufIndex - 1 := ?v]"
    have lst: "last (take bufIndex buf) = buf ! (bufIndex - 1)"
      using pos le by (rule last_take)
    have tk: "take bufIndex ?buf = butlast (take bufIndex buf) @ [last (take bufIndex buf) AND DP]"
      unfolding lst using pos le by (rule take_update_last)
    have dr: "drop (bufIndex + nondots cs) ?buf = drop (bufIndex + nondots cs) buf"
      using pos by simp
    have "encode_loop cs bufIndex ?buf err =
            Inr (err, spec_encode cs (take bufIndex ?buf) @ drop (bufIndex + nondots cs) ?buf)"
      using Cons.prems True pos by (intro Cons.IH) (simp_all add: nondots_Cons)
    with True pos le tk dr show ?thesis by (simp add: nondots_Cons)
  next
    case False
    with Cons.prems obtain g where g: "glyph c = Some g"
      by (auto simp: supported_def)
    from False Cons.prems have lt: "bufIndex < length buf" and le3: "\<not> bufIndex > 3"
      by (simp_all add: nondots_Cons)
    let ?buf = "buf[bufIndex := g]"
    have tk: "take (Suc bufIndex) ?buf = take bufIndex buf @ [g]"
      using lt by (simp add: take_Suc_conv_app_nth)
    have "encode_loop cs (Suc bufIndex) ?buf err =
            Inr (err, spec_encode cs (take (Suc bufIndex) ?buf)
                        @ drop (Suc bufIndex + nondots cs) ?buf)"
      using Cons.prems False by (intro Cons.IH) (simp_all add: nondots_Cons)
    with False g lt le3 tk show ?thesis by (simp add: nondots_Cons)
  qed
qed

lemma encode_loop_sticky:
  "encode_loop cs bufIndex buf True = Inr (e, b) \<Longrightarrow> e"
  by (induction cs arbitrary: bufIndex buf) (auto split: if_splits option.splits)

lemma encode_loop_unsupported:
  "\<not> list_all supported cs \<Longrightarrow> encode_loop cs bufIndex buf err = Inr (e, b) \<Longrightarrow> e"
proof (induction cs arbitrary: bufIndex buf err)
  case Nil
  then show ?case by simp
next
  case (Cons c cs)
  show ?case
  proof (cases "supported c")
    case True
    with Cons.prems Cons.IH show ?thesis
      by (auto simp: supported_def split: if_splits option.splits)
  next
    case False
    with Cons.prems show ?thesis
      by (auto simp: supported_def split: if_splits dest: encode_loop_sticky)
  qed
qed

lemma encode_loop_length:
  "encode_loop cs bufIndex buf err = Inr (e, b) \<Longrightarrow> length b = length buf"
  by (induction cs arbitrary: bufIndex buf err) (auto split: if_splits option.splits)

lemma length_spec_encode:
  "\<not> leading_dot cs \<or> out \<noteq> [] \<Longrightarrow> length (spec_encode cs out) = length out + nondots cs"
  by (induction cs arbitrary: out) (auto simp: nondots_Cons leading_dot_def split: list.splits)

lemma encode_body_valid:
  assumes v: "valid_input (c_str digits)" and len: "length buf = 4"
  shows "encode_body digits buf = Inr (False, spec_encode (c_str digits) [])"
proof -
  let ?s = "c_str digits"
  let ?ps = "dot_positions ?s 0"
  from v have n4: "nondots ?s = 4" and l4: "4 \<le> length ?s" and l8: "length ?s \<le> 8"
    and nl: "\<not> leading_dot ?s" and na: "\<not> adjacent_dots ?s" and sup: "list_all supported ?s"
    by (simp_all add: valid_input_def)
  have cnt: "length ?ps + 4 = length ?s"
    using length_dot_positions [of ?s 0] n4 by simp
  with l8 have le4: "length ?ps \<le> 4" by simp
  have fd: "find_dots ?s 0 0 [0, 0, 0, 0] = Inr (length ?ps, ?ps @ drop (length ?ps) [0, 0, 0, 0])"
    using find_dots_positions [of 0 ?s 0 "[0, 0, 0, 0]"] le4 by simp
  have c1: "\<not> int (length ?s) - int (length ?ps) \<noteq> 4" using cnt by simp
  have c2: "\<not> (length ?ps > 0 \<and> (?ps @ drop (length ?ps) [0, 0, 0, 0]) ! 0 = 0)"
  proof
    assume a: "length ?ps > 0 \<and> (?ps @ drop (length ?ps) [0, 0, 0, 0]) ! 0 = 0"
    then have ne: "?ps \<noteq> []" by auto
    with a have "hd ?ps = 0" by (simp add: nth_append hd_conv_nth)
    with dot_positions_hd [OF ne] nl show False by simp
  qed
  have c3: "\<not> consecutive_dots (length ?ps) (?ps @ drop (length ?ps) [0, 0, 0, 0])"
    using na by (simp add: consecutive_dots_append succ_pair_dot_positions)
  have enc: "encode_loop ?s 0 buf False = Inr (False, spec_encode ?s [])"
    using encode_loop_supported [of ?s 0 buf False] sup n4 len nl by simp
  show ?thesis
    unfolding encode_body_def Let_def using l4 l8 fd c1 c2 c3 enc by simp
qed

lemma keeps_clear_glyph: "glyph c = Some g \<Longrightarrow> keeps_clear g"
  by (auto simp: glyph_def keeps_clear_def glyph_defs split: if_splits)

lemma keeps_clear_DP: "keeps_clear (x AND DP) = keeps_clear x"
  by (simp add: keeps_clear_def and.assoc DP_def)

lemma keeps_clear_spec_encode:
  assumes "list_all supported cs" "\<forall>x \<in> set out. keeps_clear x"
    "\<not> leading_dot cs \<or> out \<noteq> []"
  shows "\<forall>x \<in> set (spec_encode cs out). keeps_clear x"
  using assms
proof (induction cs arbitrary: out)
  case Nil
  then show ?case by simp
next
  case (Cons c cs)
  show ?case
  proof (cases "c = CHR ''.''")
    case True
    with Cons.prems have ne: "out \<noteq> []" by (simp add: leading_dot_def)
    then have "last out \<in> set out" by simp
    with Cons.prems have "keeps_clear (last out AND DP)" by (simp add: keeps_clear_DP)
    moreover have "\<forall>x \<in> set (butlast out). keeps_clear x"
      using Cons.prems by (auto dest: in_set_butlastD)
    ultimately have "\<forall>x \<in> set (butlast out @ [last out AND DP]). keeps_clear x" by simp
    with Cons.prems True Cons.IH [of "butlast out @ [last out AND DP]"] show ?thesis by simp
  next
    case False
    with Cons.prems obtain g where g: "glyph c = Some g" by (auto simp: supported_def)
    then have "keeps_clear g" by (rule keeps_clear_glyph)
    with Cons.prems have "\<forall>x \<in> set (out @ [the (glyph c)]). keeps_clear x"
      using g by simp
    with Cons.prems False Cons.IH [of "out @ [the (glyph c)]"] show ?thesis by simp
  qed
qed

lemma spec_encode_not_error_pattern:
  assumes "valid_input s"
  shows "spec_encode s [] \<noteq> error_pattern"
proof
  assume eq: "spec_encode s [] = error_pattern"
  from assms have "\<forall>x \<in> set (spec_encode s []). keeps_clear x"
    by (intro keeps_clear_spec_encode) (simp_all add: valid_input_def)
  with eq have "keeps_clear (QUESTION AND DP)" by (simp add: error_pattern_def)
  then show False by (simp add: keeps_clear_def and.assoc DP_def)
qed

subsection \<open>The whole function\<close>

lemma length4:
  assumes "length (b :: 'a list) = 4"
  obtains w x y z where "b = [w, x, y, z]"
  using assms by (auto simp: length_Suc_conv eval_nat_numeral)

lemma write_error_pattern: "length buf = 4 \<Longrightarrow> write_error buf = Inr error_pattern"
  by (erule length4) (simp add: write_error_def error_pattern_def)

lemma LC4_valid:
  assumes "valid_input (c_str digits)" "length buf = 4"
  shows "LC4LEDDisplayMemWrite digits buf = Inr (spec_encode (c_str digits) [])"
  using encode_body_valid [OF assms] by (simp add: LC4LEDDisplayMemWrite_def)

lemma length_spec_encode_valid:
  assumes "valid_input s"
  shows "length (spec_encode s []) = 4"
  using assms length_spec_encode [of s "[]"] by (simp add: valid_input_def)

lemma leading_dot_nondots: "leading_dot s \<Longrightarrow> nondots s < length s"
proof (cases s)
  case Nil
  then show "leading_dot s \<Longrightarrow> nondots s < length s" by (simp add: leading_dot_def)
next
  case (Cons c cs)
  have "nondots cs \<le> length cs" by (simp add: nondots_def)
  with Cons show "leading_dot s \<Longrightarrow> nondots s < length s"
    by (simp add: leading_dot_def nondots_Cons)
qed

lemma encode_body_invalid:
  assumes inv: "\<not> valid_input (c_str digits)" and len: "length buf = 4"
    and res: "encode_body digits buf = Inr (e, b)"
  shows "e \<and> length b = 4"
proof -
  let ?s = "c_str digits"
  let ?ps = "dot_positions ?s 0"
  let ?dp = "?ps @ drop (length ?ps) [0, 0, 0, 0]"
  show ?thesis
  proof (cases "length ?s > 8 \<or> length ?s < 4")
    case True
    with res len show ?thesis by (auto simp: encode_body_def Let_def)
  next
    case range: False
    have le4: "length ?ps \<le> 4"
    proof (rule ccontr)
      assume "\<not> length ?ps \<le> 4"
      then have "find_dots ?s 0 0 [0, 0, 0, 0] = Inl (DotsPosOutOfBounds 4)"
        using find_dots_overflow [of "[0, 0, 0, 0]" 0 ?s 0] by simp
      with range res show False by (simp add: encode_body_def Let_def)
    qed
    have fd: "find_dots ?s 0 0 [0, 0, 0, 0] = Inr (length ?ps, ?dp)"
      using find_dots_positions [of 0 ?s 0 "[0, 0, 0, 0]"] le4 by simp
    have cnt: "length ?ps + nondots ?s = length ?s" by (rule length_dot_positions)
    show ?thesis
    proof (cases "int (length ?s) - int (length ?ps) \<noteq> 4")
      case True
      with range fd res len show ?thesis by (auto simp: encode_body_def Let_def)
    next
      case four: False
      with cnt have n4: "nondots ?s = 4" by simp
      show ?thesis
      proof (cases "length ?ps > 0 \<and> ?dp ! 0 = 0")
        case True
        with range fd four res len show ?thesis by (auto simp: encode_body_def Let_def)
      next
        case lead: False
        have nl: "\<not> leading_dot ?s"
        proof (cases "?ps = []")
          case True
          then have "nondots ?s = length ?s" using cnt by simp
          then show ?thesis using leading_dot_nondots [of ?s] by auto
        next
          case False
          with lead have "hd ?ps \<noteq> 0" by (simp add: nth_append hd_conv_nth)
          with dot_positions_hd [OF False] show ?thesis by simp
        qed
        show ?thesis
        proof (cases "consecutive_dots (length ?ps) ?dp")
          case True
          with range fd four lead res len show ?thesis by (auto simp: encode_body_def Let_def)
        next
          case cons: False
          then have na: "\<not> adjacent_dots ?s"
            by (simp add: consecutive_dots_append succ_pair_dot_positions)
          from range fd four lead cons res
          have enc: "encode_loop ?s 0 buf False = Inr (e, b)"
            by (auto simp: encode_body_def Let_def split: if_splits)
          from inv range nl na n4 have "\<not> list_all supported ?s"
            by (auto simp: valid_input_def)
          then have e by (rule encode_loop_unsupported [OF _ enc])
          moreover have "length b = 4" using encode_loop_length [OF enc] len by simp
          ultimately show ?thesis by simp
        qed
      qed
    qed
  qed
qed

lemma encoder_invalid_input:
  assumes "\<not> valid_input (c_str digits)" "length buf = 4"
    "LC4LEDDisplayMemWrite digits buf = Inr out"
  shows "out = error_pattern"
proof (cases "encode_body digits buf")
  case (Inl f)
  with assms(3) show ?thesis by (simp add: LC4LEDDisplayMemWrite_def)
next
  case (Inr p)
  obtain e b where p: "p = (e, b)" by (cases p)
  with Inr assms(1,2) have "e \<and> length b = 4" by (intro encode_body_invalid) simp_all
  with Inr p assms(3) show ?thesis
    by (simp add: LC4LEDDisplayMemWrite_def write_error_pattern)
qed

lemma digit_glyph_values:
  "glyph CHR ''0'' = Some ZERO" "glyph CHR ''1'' = Some ONE" "glyph CHR ''2'' = Some TWO"
  "glyph CHR ''3'' = Some THREE" "glyph CHR ''4'' = Some FOUR" "glyph CHR ''5'' = Some FIVE"
  "glyph CHR ''6'' = Some SIX" "glyph CHR ''7'' = Some SEVEN" "glyph CHR ''8'' = Some EIGHT"
  "glyph CHR ''9'' = Some NINE"
  by (simp_all add: glyph_def)

subsection \<open>The function on a store\<close>

lemma find_dots_store_count:
  "fst (find_dots_store cs i dots dp) = dots + length (dot_positions cs i)"
  by (induction cs arbitrary: i dots dp) simp_all

lemma find_dots_store_cells:
  "snd (find_dots_store cs i dots dp) k =
     (if dots \<le> k \<and> k < dots + length (dot_positions cs i)
      then dot_positions cs i ! (k - dots) else dp k)"
proof (induction cs arbitrary: i dots dp)
  case Nil
  then show ?case by simp
next
  case (Cons c cs)
  show ?case
  proof (cases "c = CHR ''.''")
    case False
    with Cons.IH [of "Suc i" dots dp] show ?thesis by simp
  next
    case True
    have ih: "snd (find_dots_store cs (Suc i) (Suc dots) (dp(dots := i))) k =
                (if Suc dots \<le> k \<and> k < Suc dots + length (dot_positions cs (Suc i))
                 then dot_positions cs (Suc i) ! (k - Suc dots) else (dp(dots := i)) k)"
      by (rule Cons.IH)
    show ?thesis
    proof (cases "k = dots")
      case eq: True
      with True ih show ?thesis by simp
    next
      case False
      with True ih show ?thesis by (auto simp: nth_Cons' Suc_diff_le)
    qed
  qed
qed

lemma consecutive_dots_store_iff:
  assumes "\<And>k. k < length ps \<Longrightarrow> dp k = ps ! k"
  shows "consecutive_dots_store (length ps) dp = succ_pair ps"
proof -
  have "consecutive_dots_store (length ps) dp
        = (\<exists>k. Suc k < length ps \<and> dp (Suc k) = dp k + 1)"
  proof
    assume "consecutive_dots_store (length ps) dp"
    then obtain i where i: "1 \<le> i" "i < length ps" "dp i = dp (i - 1) + 1"
      by (auto simp: consecutive_dots_store_def list_ex_iff)
    then obtain k where "i = Suc k" by (cases i) auto
    with i have "Suc k < length ps \<and> dp (Suc k) = dp k + 1" by simp
    then show "\<exists>k. Suc k < length ps \<and> dp (Suc k) = dp k + 1" by blast
  next
    assume "\<exists>k. Suc k < length ps \<and> dp (Suc k) = dp k + 1"
    then obtain k where "Suc k < length ps" "dp (Suc k) = dp k + 1" by blast
    then have "Suc k \<in> set [1..<length ps] \<and> dp (Suc k) = dp (Suc k - 1) + 1" by simp
    then show "consecutive_dots_store (length ps) dp"
      unfolding consecutive_dots_store_def list_ex_iff by blast
  qed
  also have "\<dots> = (\<exists>k. Suc k < length ps \<and> ps ! Suc k = ps ! k + 1)"
    using assms by (metis Suc_lessD)
  finally show ?thesis by (simp add: succ_pair_nth)
qed

lemma encode_loop_store_sticky: "fst (encode_loop_store cs bufIndex mem True)"
  by (induction cs arbitrary: bufIndex mem) (auto split: option.splits)

lemma encode_loop_store_unsupported:
  "\<not> list_all supported cs \<Longrightarrow> fst (encode_loop_store cs bufIndex mem err)"
proof (induction cs arbitrary: bufIndex mem err)
  case Nil
  then show ?case by simp
next
  case (Cons c cs)
  show ?case
  proof (cases "supported c")
    case True
    with Cons.prems Cons.IH show ?thesis
      by (auto simp: supported_def split: option.splits)
  next
    case False
    then show ?thesis
      by (auto simp: supported_def encode_loop_store_sticky)
  qed
qed

lemma encode_body_store_invalid:
  assumes "\<not> valid_input (c_str digits)"
  shows "fst (encode_body_store digits stack mem)"
proof (rule ccontr)
  assume no: "\<not> fst (encode_body_store digits stack mem)"
  let ?s = "c_str digits"
  let ?ps = "dot_positions ?s 0"
  let ?st = "stack(0 := 0, 1 := 0, 2 := 0, 3 := 0)"
  obtain dp where fd: "find_dots_store ?s 0 0 ?st = (length ?ps, dp)"
    using find_dots_store_count [of ?s 0 0 ?st] by (cases "find_dots_store ?s 0 0 ?st") simp
  have cell: "\<And>k. k < length ?ps \<Longrightarrow> dp k = ?ps ! k"
    using find_dots_store_cells [of ?s 0 0 ?st] fd by simp
  have body: "encode_body_store digits stack mem =
      (if length ?s > 8 \<or> length ?s < 4 then (True, mem)
       else if int (length ?s) - int (length ?ps) \<noteq> 4 then (True, mem)
       else if length ?ps > 0 \<and> dp 0 = 0 then (True, mem)
       else if consecutive_dots_store (length ?ps) dp then (True, mem)
       else encode_loop_store ?s 0 mem False)"
    unfolding encode_body_store_def Let_def fd by simp
  from no body have range: "\<not> (length ?s > 8 \<or> length ?s < 4)"
    and four: "int (length ?s) - int (length ?ps) = 4"
    and lead: "\<not> (length ?ps > 0 \<and> dp 0 = 0)"
    and cons: "\<not> consecutive_dots_store (length ?ps) dp"
    and enc: "\<not> fst (encode_loop_store ?s 0 mem False)"
    by (auto split: if_splits)
  have cnt: "length ?ps + nondots ?s = length ?s" by (rule length_dot_positions)
  with four have n4: "nondots ?s = 4" by simp
  have nl: "\<not> leading_dot ?s"
  proof (cases "?ps = []")
    case True
    then have "nondots ?s = length ?s" using cnt by simp
    then show ?thesis using leading_dot_nondots [of ?s] by auto
  next
    case False
    with lead cell [of 0] have "hd ?ps \<noteq> 0" by (simp add: hd_conv_nth)
    with dot_positions_hd [OF False] show ?thesis by simp
  qed
  have na: "\<not> adjacent_dots ?s"
    using cons consecutive_dots_store_iff [of ?ps dp] cell
    by (simp add: succ_pair_dot_positions)
  have sup: "list_all supported ?s"
    using enc encode_loop_store_unsupported by blast
  from range nl na n4 sup have "valid_input ?s" by (simp add: valid_input_def)
  with assms show False by simp
qed


lemma encode_loop_store_glyph:
  "\<not> (bufIndex > 3 \<and> c \<noteq> CHR ''.'') \<Longrightarrow> glyph c = Some g \<Longrightarrow>
   encode_loop_store (c # cs) bufIndex mem err
     = encode_loop_store cs (bufIndex + 1) (mem(bufIndex := g)) err"
  by auto

lemma encode_loop_store_dot:
  "encode_loop_store (CHR ''.'' # cs) bufIndex mem err
     = encode_loop_store cs bufIndex (mem(bufIndex - 1 := mem (bufIndex - 1) AND DP)) err"
  by auto

lemma encode_loop_store_default:
  "\<not> (bufIndex > 3 \<and> c \<noteq> CHR ''.'') \<Longrightarrow> glyph c = None \<Longrightarrow> c \<noteq> CHR ''.'' \<Longrightarrow>
   encode_loop_store (c # cs) bufIndex mem err = encode_loop_store cs bufIndex mem True"
  by auto

lemma encode_loop_glyph:
  "\<not> (bufIndex > 3 \<and> c \<noteq> CHR ''.'') \<Longrightarrow> glyph c = Some g \<Longrightarrow>
   encode_loop (c # cs) bufIndex buf err = Inr r \<Longrightarrow>
   bufIndex < length buf \<and> encode_loop cs (Suc bufIndex) (buf[bufIndex := g]) err = Inr r"
  by (auto split: if_splits)

lemma encode_loop_dot:
  "encode_loop (CHR ''.'' # cs) bufIndex buf err = Inr r \<Longrightarrow>
   0 < bufIndex \<and> bufIndex \<le> length buf
   \<and> encode_loop cs bufIndex (buf[bufIndex - 1 := buf ! (bufIndex - 1) AND DP]) err = Inr r"
  by (auto split: if_splits)

lemma encode_loop_default:
  "\<not> (bufIndex > 3 \<and> c \<noteq> CHR ''.'') \<Longrightarrow> glyph c = None \<Longrightarrow> c \<noteq> CHR ''.'' \<Longrightarrow>
   encode_loop (c # cs) bufIndex buf err = encode_loop cs bufIndex buf True"
  by auto


lemma encode_loop_store_agrees:
  assumes "encode_loop cs bufIndex buf err = Inr (e, b)"
    and "\<forall>k < length buf. mem (int k) = buf ! k"
  shows "fst (encode_loop_store cs (int bufIndex) mem err) = e
         \<and> (\<forall>k < length b. snd (encode_loop_store cs (int bufIndex) mem err) (int k) = b ! k)"
  using assms
proof (induction cs arbitrary: bufIndex buf mem err)
  case Nil
  then show ?case by simp
next
  case (Cons c cs)
  show ?case
  proof (cases "bufIndex > 3 \<and> c \<noteq> CHR ''.''")
    case True
    with Cons.prems show ?thesis by auto
  next
    case guard: False
    then have g': "\<not> (int bufIndex > 3 \<and> c \<noteq> CHR ''.'')" by simp
    show ?thesis
    proof (cases "c = CHR ''.''")
      case True
      from Cons.prems(1) [unfolded True, THEN encode_loop_dot]
      have pos: "0 < bufIndex" "bufIndex \<le> length buf"
        and run: "encode_loop cs bufIndex
                    (buf[bufIndex - 1 := buf ! (bufIndex - 1) AND DP]) err = Inr (e, b)"
        by blast+
      from pos have idx: "int bufIndex - 1 = int (bufIndex - 1)" by simp
      from pos have "bufIndex - 1 < length buf" by simp
      with Cons.prems(2) have cur: "mem (int (bufIndex - 1)) = buf ! (bufIndex - 1)" by blast
      have rel: "\<forall>k < length (buf[bufIndex - 1 := buf ! (bufIndex - 1) AND DP]).
                   (mem(int (bufIndex - 1) := buf ! (bufIndex - 1) AND DP)) (int k)
                   = buf[bufIndex - 1 := buf ! (bufIndex - 1) AND DP] ! k"
        using Cons.prems(2) by (simp add: nth_list_update)
      have step: "encode_loop_store (c # cs) (int bufIndex) mem err
                  = encode_loop_store cs (int bufIndex)
                      (mem(int (bufIndex - 1) := buf ! (bufIndex - 1) AND DP)) err"
        unfolding True encode_loop_store_dot idx cur ..
      from Cons.IH [OF run rel] show ?thesis unfolding step .
    next
      case nodot: False
      show ?thesis
      proof (cases "glyph c")
        case (Some g)
        from encode_loop_glyph [OF guard Some Cons.prems(1)]
        have lt: "bufIndex < length buf"
          and run: "encode_loop cs (Suc bufIndex) (buf[bufIndex := g]) err = Inr (e, b)"
          by simp_all
        have rel: "\<forall>k < length (buf[bufIndex := g]). (mem(int bufIndex := g)) (int k)
                     = buf[bufIndex := g] ! k"
          using Cons.prems(2) by (simp add: nth_list_update)
        have suc: "int bufIndex + 1 = int (Suc bufIndex)" by simp
        have step: "encode_loop_store (c # cs) (int bufIndex) mem err
                    = encode_loop_store cs (int (Suc bufIndex)) (mem(int bufIndex := g)) err"
          unfolding encode_loop_store_glyph [OF g' Some] suc ..
        from Cons.IH [OF run rel] show ?thesis unfolding step .
      next
        case None
        have run: "encode_loop cs bufIndex buf True = Inr (e, b)"
          using Cons.prems(1) unfolding encode_loop_default [OF guard None nodot] .
        have step: "encode_loop_store (c # cs) (int bufIndex) mem err
                    = encode_loop_store cs (int bufIndex) mem True"
          using g' None nodot by (rule encode_loop_store_default)
        from Cons.IH [OF run Cons.prems(2)] show ?thesis unfolding step .
      qed
    qed
  qed
qed

lemma encode_body_store_valid:
  assumes v: "valid_input (c_str digits)"
  shows "encode_body_store digits stack mem = encode_loop_store (c_str digits) 0 mem False"
proof -
  let ?s = "c_str digits"
  let ?ps = "dot_positions ?s 0"
  let ?st = "stack(0 := 0, 1 := 0, 2 := 0, 3 := 0)"
  obtain dp where fd: "find_dots_store ?s 0 0 ?st = (length ?ps, dp)"
    using find_dots_store_count [of ?s 0 0 ?st] by (cases "find_dots_store ?s 0 0 ?st") simp
  have cell: "\<And>k. k < length ?ps \<Longrightarrow> dp k = ?ps ! k"
    using find_dots_store_cells [of ?s 0 0 ?st] fd by simp
  from v have n4: "nondots ?s = 4" and l4: "4 \<le> length ?s" and l8: "length ?s \<le> 8"
    and nl: "\<not> leading_dot ?s" and na: "\<not> adjacent_dots ?s"
    by (simp_all add: valid_input_def)
  have cnt: "length ?ps + 4 = length ?s"
    using length_dot_positions [of ?s 0] n4 by simp
  have c1: "\<not> int (length ?s) - int (length ?ps) \<noteq> 4" using cnt by simp
  have c2: "\<not> (length ?ps > 0 \<and> dp 0 = 0)"
  proof
    assume a: "length ?ps > 0 \<and> dp 0 = 0"
    then have ne: "?ps \<noteq> []" by auto
    with a cell [of 0] have "hd ?ps = 0" by (simp add: hd_conv_nth)
    with dot_positions_hd [OF ne] nl show False by simp
  qed
  have c3: "\<not> consecutive_dots_store (length ?ps) dp"
    using na consecutive_dots_store_iff [of ?ps dp] cell
    by (simp add: succ_pair_dot_positions)
  show ?thesis
    unfolding encode_body_store_def Let_def fd using l4 l8 c1 c2 c3 by auto
qed

lemma store_agrees:
  assumes res: "LC4LEDDisplayMemWrite digits buf = Inr out" and len: "length buf = 4"
    and mem: "cells mem = buf"
  shows "cells (LC4LEDDisplayMemWrite_store digits stack mem) = out"
proof (cases "valid_input (c_str digits)")
  case False
  then have "out = error_pattern" using len res by (rule encoder_invalid_input)
  moreover have "fst (encode_body_store digits stack mem)"
    using False by (rule encode_body_store_invalid)
  ultimately show ?thesis
    by (cases "encode_body_store digits stack mem")
      (simp add: LC4LEDDisplayMemWrite_store_def cells_def error_pattern_def)
next
  case True
  let ?s = "c_str digits"
  let ?r = "encode_loop_store ?s (int 0) mem False"
  from True len res have out: "out = spec_encode ?s []" by (simp add: LC4_valid)
  have l4: "length (spec_encode ?s []) = 4" using True by (rule length_spec_encode_valid)
  from True have sup: "list_all supported ?s" "nondots ?s = 4" "\<not> leading_dot ?s"
    by (simp_all add: valid_input_def)
  have run: "encode_loop ?s 0 buf False = Inr (False, spec_encode ?s [])"
    using encode_loop_supported [of ?s 0 buf False] sup len by simp
  from mem len have rel: "\<forall>k < length buf. mem (int k) = buf ! k"
    by (auto simp: cells_def less_Suc_eq eval_nat_numeral)
  from encode_loop_store_agrees [OF run rel] l4
  have e: "\<not> fst ?r" and c: "\<forall>k < 4. snd ?r (int k) = spec_encode ?s [] ! k"
    by simp_all
  from l4 obtain w x y z where wxyz: "spec_encode ?s [] = [w, x, y, z]" by (rule length4)
  with c have "snd ?r 0 = w" "snd ?r 1 = x" "snd ?r 2 = y" "snd ?r 3 = z"
    using c [rule_format, of 0] c [rule_format, of 1] c [rule_format, of 2]
      c [rule_format, of 3] by simp_all
  with e wxyz out show ?thesis
    by (cases ?r)
      (simp add: LC4LEDDisplayMemWrite_store_def encode_body_store_valid [OF True] cells_def)
qed

subsection \<open>The claims about the encoder\<close>

text \<open>
  Claim C1: every input that breaks a validation rule (a length below 4 or above 8, a
  dot in front, two dots side by side, a character outside the glyph set, more or
  fewer than four characters other than dots) ends with the fixed error pattern in
  the four cells of \<open>displayBuf\<close>: the decimal point alone, the question mark with the
  decimal point, the question mark, and the blank.  This holds on the store, whatever
  the store held before, also for the inputs on which the function stores outside an
  array on its way.
\<close>

theorem encoder_invalid_input_error_pattern:
  assumes "\<not> valid_input (c_str digits)"
  shows "cells (LC4LEDDisplayMemWrite_store digits stack mem) = error_pattern"
proof -
  obtain e m where em: "encode_body_store digits stack mem = (e, m)"
    by (cases "encode_body_store digits stack mem")
  with encode_body_store_invalid [OF assms, of stack mem] have e by simp
  with em show ?thesis
    by (simp add: LC4LEDDisplayMemWrite_store_def cells_def error_pattern_def)
qed

theorem encoder_invalid_input_error_pattern_witness:
  "\<not> valid_input (c_str ''123'')
   \<and> cells (LC4LEDDisplayMemWrite_store ''123'' (\<lambda>k. 0) (\<lambda>a. 0)) = error_pattern
   \<and> \<not> valid_input (c_str ''1..234'')
   \<and> cells (LC4LEDDisplayMemWrite_store ''1..234'' (\<lambda>k. 0) (\<lambda>a. 0)) = error_pattern
   \<and> \<not> valid_input (c_str ''.....'')
   \<and> cells (LC4LEDDisplayMemWrite_store ''.....'' (\<lambda>k. 0) (\<lambda>a. 0)) = error_pattern
   \<and> \<not> valid_input (c_str ''x.123'')
   \<and> cells (LC4LEDDisplayMemWrite_store ''x.123'' (\<lambda>k. 0) (\<lambda>a. 0)) = error_pattern"
proof -
  have a: "\<not> valid_input (c_str ''123'')"
    by (simp add: valid_input_def c_str_def)
  have b: "\<not> valid_input (c_str ''1..234'')"
    by (simp add: valid_input_def c_str_def)
  have c: "\<not> valid_input (c_str ''.....'')"
    by (simp add: valid_input_def c_str_def leading_dot_def)
  have d: "\<not> valid_input (c_str ''x.123'')"
    by (simp add: valid_input_def c_str_def supported_def glyph_def)
  from a b c d
    encoder_invalid_input_error_pattern [OF a, of "\<lambda>k. 0" "\<lambda>a. 0"]
    encoder_invalid_input_error_pattern [OF b, of "\<lambda>k. 0" "\<lambda>a. 0"]
    encoder_invalid_input_error_pattern [OF c, of "\<lambda>k. 0" "\<lambda>a. 0"]
    encoder_invalid_input_error_pattern [OF d, of "\<lambda>k. 0" "\<lambda>a. 0"]
  show ?thesis by simp
qed

text \<open>
  Claim C2: on a string of length 4 to 8 whose dots are neither in front nor side by
  side, with exactly four other characters, all of the glyph set, the function writes
  the four bytes that the left-to-right encoding gives (a glyph per character, the
  decimal point ANDed into the byte written last for a dot), and the error pattern is
  not written: the \<open>error\<close> flag is clear at the label, and the four bytes differ from
  the pattern.
\<close>

theorem encoder_valid_input:
  assumes "valid_input (c_str digits)" "length buf = 4"
  shows "LC4LEDDisplayMemWrite digits buf = Inr (spec_encode (c_str digits) [])
         \<and> encode_body digits buf = Inr (False, spec_encode (c_str digits) [])
         \<and> length (spec_encode (c_str digits) []) = 4
         \<and> spec_encode (c_str digits) [] \<noteq> error_pattern"
  using assms
  by (simp add: LC4_valid encode_body_valid length_spec_encode_valid
      spec_encode_not_error_pattern)

theorem encoder_valid_input_witness:
  "valid_input (c_str ''12.34'')
   \<and> LC4LEDDisplayMemWrite ''12.34'' [0, 0, 0, 0] = Inr [ONE, TWO AND DP, THREE, FOUR]"
proof -
  have v: "valid_input (c_str ''12.34'')"
    by (simp add: valid_input_def c_str_def leading_dot_def nondots_def supported_def
        glyph_def)
  have l: "length [0, 0, 0, 0 :: byte] = 4" by simp
  from encoder_valid_input [OF v l] v show ?thesis
    by (simp add: c_str_def glyph_def)
qed

text \<open>
  Claim C4, as the specification has it: the string \<open>" 12."\<close> gives the blank glyph,
  the glyph of 1 and the glyph of 2 with the decimal point.  The string has three
  characters other than the dot, so the function writes the error pattern.
\<close>

theorem encoder_example_counterexample:
  "LC4LEDDisplayMemWrite '' 12.'' [0, 0, 0, 0] = Inr error_pattern
   \<and> take 3 error_pattern \<noteq> [BLANK, ONE, TWO AND DP]"
  by (simp add: LC4LEDDisplayMemWrite_def encode_body_def c_str_def write_error_def
      error_pattern_def glyph_defs)

text \<open>
  Claim C4, amended: \<open>" 12."\<close> gives the error pattern whatever the display memory
  held; with a fourth character, \<open>" 12. "\<close>, the function writes the blank glyph, the
  glyph of 1, the glyph of 2 with the decimal point, and the blank glyph.
\<close>

theorem encoder_example:
  "LC4LEDDisplayMemWrite '' 12.'' [a, b, c, d] = Inr error_pattern
   \<and> LC4LEDDisplayMemWrite '' 12. '' [a, b, c, d] = Inr [BLANK, ONE, TWO AND DP, BLANK]"
  by (simp add: LC4LEDDisplayMemWrite_def encode_body_def c_str_def write_error_def
      error_pattern_def consecutive_dots_def glyph_def)

text \<open>
  Claim C8: two different digit characters have different glyphs (and each digit has
  one), so the glyph of a digit determines the digit.
\<close>

theorem digit_glyphs_distinct:
  assumes "c1 \<in> set ''0123456789''" "c2 \<in> set ''0123456789''" "c1 \<noteq> c2"
  shows "glyph c1 \<noteq> None \<and> glyph c1 \<noteq> glyph c2"
proof -
  from assms(1) have g1: "glyph c1 \<noteq> None" by (auto simp: digit_glyph_values)
  from assms show ?thesis
    using g1 by (auto simp: digit_glyph_values ZERO_def ONE_def TWO_def THREE_def FOUR_def
        FIVE_def SIX_def SEVEN_def EIGHT_def NINE_def)
qed

theorem digit_glyphs_distinct_witness:
  "CHR ''1'' \<in> set ''0123456789'' \<and> CHR ''7'' \<in> set ''0123456789''
   \<and> glyph CHR ''1'' = Some ONE \<and> glyph CHR ''1'' \<noteq> glyph CHR ''7''"
proof -
  have a: "CHR ''1'' \<in> set ''0123456789''" by simp
  have b: "CHR ''7'' \<in> set ''0123456789''" by simp
  have c: "CHR ''1'' \<noteq> CHR ''7''" by simp
  from digit_glyphs_distinct [OF a b c] a b show ?thesis by (simp add: digit_glyph_values)
qed

text \<open>
  Claim C9: on a valid string the result does not depend on what the display memory
  held before, and running the function again on its own output changes nothing.
\<close>

theorem encoder_idempotent:
  assumes "valid_input (c_str digits)" "length buf1 = 4" "length buf2 = 4"
  shows "LC4LEDDisplayMemWrite digits buf1 = LC4LEDDisplayMemWrite digits buf2
         \<and> (\<exists>out. LC4LEDDisplayMemWrite digits buf1 = Inr out \<and> length out = 4
                   \<and> LC4LEDDisplayMemWrite digits out = Inr out)"
  using assms by (simp add: LC4_valid length_spec_encode_valid)

theorem encoder_idempotent_witness:
  "valid_input (c_str '' 2.5g'')
   \<and> LC4LEDDisplayMemWrite '' 2.5g'' [0, 0, 0, 0]
       = LC4LEDDisplayMemWrite '' 2.5g'' [255, 255, 255, 255]
   \<and> LC4LEDDisplayMemWrite '' 2.5g'' [0, 0, 0, 0] = Inr [BLANK, TWO AND DP, FIVE, DEGREE]
   \<and> LC4LEDDisplayMemWrite '' 2.5g'' [BLANK, TWO AND DP, FIVE, DEGREE]
       = Inr [BLANK, TWO AND DP, FIVE, DEGREE]"
proof -
  have v: "valid_input (c_str '' 2.5g'')"
    by (simp add: valid_input_def c_str_def leading_dot_def nondots_def supported_def
        glyph_def)
  have l1: "length [0, 0, 0, 0 :: byte] = 4" by simp
  have l2: "length [255, 255, 255, 255 :: byte] = 4" by simp
  have e: "LC4LEDDisplayMemWrite '' 2.5g'' [0, 0, 0, 0] = Inr [BLANK, TWO AND DP, FIVE, DEGREE]"
    by (simp add: LC4LEDDisplayMemWrite_def encode_body_def c_str_def consecutive_dots_def
        glyph_def)
  from encoder_idempotent [OF v l1 l2] e v show ?thesis by auto
qed

text \<open>
  Claim C10: on a string of length 4 to 8 every write stays inside its array:
  \<open>dotsPos\<close> is written at indices 0 to 3 only, and the write at \<open>bufIndex - 1\<close> never
  goes to index -1.  Both fail.  The string of five dots has length 5, and the loop
  that records the dots writes \<open>dotsPos[4]\<close>.  The string \<open>x.123\<close> has length 5 and
  passes the tests on the dots; the encoding loop reaches its dot with \<open>bufIndex\<close> 0.
\<close>

theorem encoder_out_of_bounds_writes:
  "length (c_str ''.....'') = 5
   \<and> find_dots (c_str ''.....'') 0 0 [0, 0, 0, 0] = Inl (DotsPosOutOfBounds 4)
   \<and> encode_body ''.....'' [a, b, c, d] = Inl (DotsPosOutOfBounds 4)
   \<and> length (c_str ''x.123'') = 5
   \<and> find_dots (c_str ''x.123'') 0 0 [0, 0, 0, 0] = Inr (1, [1, 0, 0, 0])
   \<and> encode_loop (c_str ''x.123'') 0 [a, b, c, d] False = Inl (DisplayBufOutOfBounds (- 1))
   \<and> encode_body ''x.123'' [a, b, c, d] = Inl (DisplayBufOutOfBounds (- 1))"
  by (simp add: encode_body_def c_str_def consecutive_dots_def glyph_def)

section \<open>Properties of the clock\<close>

subsection \<open>The timer tick\<close>

lemma step9: "(x::byte) \<le> 9 \<Longrightarrow> x + 1 \<noteq> 10 \<Longrightarrow> x + 1 \<le> 9"
  by unat_arith
lemma step5: "(x::byte) \<le> 5 \<Longrightarrow> x + 1 \<noteq> 6 \<Longrightarrow> x + 1 \<le> 5"
  by unat_arith
lemma step59: "(x::byte) \<le> 59 \<Longrightarrow> x + 1 \<noteq> 60 \<Longrightarrow> x + 1 \<le> 59"
  by unat_arith
lemma step3: "(x::byte) \<le> 3 \<Longrightarrow> x + 1 \<noteq> 4 \<Longrightarrow> x + 1 \<le> 3"
  by unat_arith
lemma unat_succ: "(x::byte) \<le> 9 \<Longrightarrow> unat (x + 1) = unat x + 1"
  by (simp add: unat_word_ariths word_le_nat_alt)
lemma le2_cases: "(x::byte) \<le> 2 \<Longrightarrow> x = 0 \<or> x = 1 \<or> x = 2"
  by unat_arith

lemma hour_carry_keep:
  assumes "h1 \<le> 2" "h0 \<le> 9" "unat h1 * 10 + unat h0 \<le> 23"
  shows "hour_carry h1 h0 = (h1, h0)"
proof -
  from assms(2) have "h0 \<noteq> 10" by unat_arith
  moreover from assms(3) have "\<not> (h1 = 2 \<and> h0 = 4)" by auto
  moreover from assms(1) have "h1 \<noteq> 3" by unat_arith
  ultimately show ?thesis by (simp add: hour_carry_def)
qed

lemma hour_carry_valid:
  assumes "h1 \<le> 2" "h0 \<le> 9" "unat h1 * 10 + unat h0 \<le> 23"
    "hour_carry h1 (h0 + 1) = (a, b)"
  shows "a \<le> 2 \<and> b \<le> 9 \<and> unat a * 10 + unat b \<le> 23"
proof -
  have u: "unat (h0 + 1) = unat h0 + 1" using assms(2) by (rule unat_succ)
  from assms(1) consider "h1 = 0" | "h1 = 1" | "h1 = 2" using le2_cases by blast
  then show ?thesis
  proof cases
    case 1
    show ?thesis
    proof (cases "h0 + 1 = 10")
      case True
      with 1 assms(4) show ?thesis by (auto simp: hour_carry_def)
    next
      case False
      have "h0 + 1 \<le> 9" using assms(2) False by (rule step9)
      with 1 False assms(4) u show ?thesis by (auto simp: hour_carry_def word_le_nat_alt)
    qed
  next
    case 2
    show ?thesis
    proof (cases "h0 + 1 = 10")
      case True
      with 2 assms(4) show ?thesis by (auto simp: hour_carry_def)
    next
      case False
      have "h0 + 1 \<le> 9" using assms(2) False by (rule step9)
      with 2 False assms(4) u show ?thesis by (auto simp: hour_carry_def word_le_nat_alt)
    qed
  next
    case 3
    with assms(3) have h0: "unat h0 \<le> 3" by simp
    show ?thesis
    proof (cases "h0 + 1 = 4")
      case True
      with 3 assms(4) show ?thesis by (auto simp: hour_carry_def)
    next
      case False
      from h0 have "h0 \<le> 3" by (simp add: word_le_nat_alt)
      then have "h0 + 1 \<le> 3" using False by (rule step3)
      then have "unat (h0 + 1) \<le> 3" by (simp add: word_le_nat_alt)
      with 3 False assms(4) show ?thesis by (auto simp: hour_carry_def word_le_nat_alt)
    qed
  qed
qed


lemma minute_cascade_hours:
  "minute_cascade [h1, h0, m1, m0, x] =
    (let m0' = m0 + 1;
         m1' = (if m0' = 10 then m1 + 1 else m1);
         hh = hour_carry h1 (if m1' = 6 then h0 + 1 else h0)
     in [fst hh, snd hh, if m1' = 6 then 0 else m1', if m0' = 10 then 0 else m0', 0])"
  by (auto simp: minute_cascade_def hour_carry_def Let_def)

lemma minute_cascade_valid:
  assumes "h1 \<le> 2" "h0 \<le> 9" "unat h1 * 10 + unat h0 \<le> 23" "m1 \<le> 5" "m0 \<le> 9"
  shows "valid_clock (minute_cascade [h1, h0, m1, m0, x])"
proof -
  have m1: "m1 \<noteq> 6" using assms(4) by unat_arith
  have keep: "hour_carry h1 h0 = (h1, h0)" using assms(1-3) by (rule hour_carry_keep)
  show ?thesis
  proof (cases "m0 + 1 = 10")
    case False
    have "m0 + 1 \<le> 9" using assms(5) False by (rule step9)
    with False m1 keep assms show ?thesis
      by (simp add: minute_cascade_hours valid_clock_def)
  next
    case carry0: True
    show ?thesis
    proof (cases "m1 + 1 = 6")
      case False
      have "m1 + 1 \<le> 5" using assms(4) False by (rule step5)
      with False carry0 keep assms show ?thesis
        by (simp add: minute_cascade_hours valid_clock_def)
    next
      case True
      obtain a b where ab: "hour_carry h1 (h0 + 1) = (a, b)" by (cases "hour_carry h1 (h0 + 1)")
      with assms(1-3) have "a \<le> 2 \<and> b \<le> 9 \<and> unat a * 10 + unat b \<le> 23"
        by (rule hour_carry_valid)
      with True carry0 ab show ?thesis
        by (simp add: minute_cascade_hours valid_clock_def)
    qed
  qed
qed

lemma tick_valid:
  assumes "valid_clock (clock s)"
  shows "valid_clock (clock (TIMER1_COMPA_clock s))"
proof -
  from assms have "length (clock s) = 5" by (simp add: valid_clock_def)
  then obtain h1 h0 m1 m0 x where c: "clock s = [h1, h0, m1, m0, x]"
    by (auto simp: length_Suc_conv eval_nat_numeral)
  with assms have b: "h1 \<le> 2" "h0 \<le> 9" "unat h1 * 10 + unat h0 \<le> 23" "m1 \<le> 5" "m0 \<le> 9"
    "x \<le> 59" by (simp_all add: valid_clock_def)
  show ?thesis
  proof (cases "x + 1 = 60")
    case True
    with c minute_cascade_valid [OF b(1-5), of "x + 1"] show ?thesis
      by (simp add: TIMER1_COMPA_clock_def Let_def)
  next
    case False
    have "x + 1 \<le> 59" using b(6) False by (rule step59)
    with False c b show ?thesis
      by (simp add: TIMER1_COMPA_clock_def Let_def valid_clock_def)
  qed
qed

lemma rollover:
  "clock s = [2, 3, 5, 9, 59] \<Longrightarrow> clock (TIMER1_COMPA_clock s) = [0, 0, 0, 0, 0]"
  by (simp add: TIMER1_COMPA_clock_def minute_cascade_def Let_def)

text \<open>
  Claim C7: one tick of the timer takes a clock within its ranges to a clock within
  its ranges, and 23:59:59 to 00:00:00.
\<close>

theorem timer_tick_keeps_clock_valid:
  assumes "valid_clock (clock s)"
  shows "valid_clock (clock (TIMER1_COMPA_clock s))
         \<and> (clock s = [2, 3, 5, 9, 59] \<longrightarrow> clock (TIMER1_COMPA_clock s) = [0, 0, 0, 0, 0])"
  using assms by (simp add: tick_valid rollover)

theorem timer_tick_keeps_clock_valid_witness:
  "valid_clock (clock (initial_sketch\<lparr>clock := [2, 3, 5, 9, 59]\<rparr>))
   \<and> valid_clock (clock (TIMER1_COMPA_clock (initial_sketch\<lparr>clock := [2, 3, 5, 9, 59]\<rparr>)))
   \<and> clock (TIMER1_COMPA_clock (initial_sketch\<lparr>clock := [2, 3, 5, 9, 59]\<rparr>))
       = [0, 0, 0, 0, 0]"
proof -
  have v: "valid_clock (clock (initial_sketch\<lparr>clock := [2, 3, 5, 9, 59]\<rparr>))"
    by (simp add: valid_clock_def)
  from timer_tick_keeps_clock_valid [OF v] v show ?thesis by auto
qed

subsection \<open>The setup modes\<close>

lemma digit_char_values:
  "digit_char 0 = CHR ''0''" "digit_char 1 = CHR ''1''" "digit_char 2 = CHR ''2''"
  "digit_char 3 = CHR ''3''" "digit_char 4 = CHR ''4''" "digit_char 5 = CHR ''5''"
  "digit_char 6 = CHR ''6''" "digit_char 7 = CHR ''7''" "digit_char 8 = CHR ''8''"
  "digit_char 9 = CHR ''9''"
  by code_simp+

lemma le9_cases:
  "(b::byte) \<le> 9 \<Longrightarrow> b = 0 \<or> b = 1 \<or> b = 2 \<or> b = 3 \<or> b = 4 \<or> b = 5 \<or> b = 6 \<or> b = 7 \<or> b = 8 \<or> b = 9"
  by unat_arith

lemma glyph_digit_char: "b \<le> 9 \<Longrightarrow> glyph (digit_char b) \<noteq> None"
  using le9_cases [of b] by (auto simp: digit_char_values digit_glyph_values)

lemma glyph_space: "glyph CHR '' '' = Some BLANK"
  by (simp add: glyph_def)

lemma glyph_Some_chars: "glyph c \<noteq> None \<Longrightarrow> c \<noteq> CHR ''.'' \<and> c \<noteq> CHR 0x00"
  by (auto simp: glyph_def)

lemma LC4_time_string:
  assumes "glyph c0 \<noteq> None" "glyph c1 \<noteq> None" "glyph c3 \<noteq> None" "glyph c4 \<noteq> None"
    "length buf = 4"
  shows "LC4LEDDisplayMemWrite [c0, c1, CHR ''.'', c3, c4, NUL, x] buf
         = Inr [the (glyph c0), the (glyph c1) AND DP, the (glyph c3), the (glyph c4)]"
proof -
  let ?ts = "[c0, c1, CHR ''.'', c3, c4, NUL, x]"
  from assms(1-4) have ch: "c0 \<noteq> CHR ''.''" "c1 \<noteq> CHR ''.''" "c3 \<noteq> CHR ''.''" "c4 \<noteq> CHR ''.''"
    "c0 \<noteq> CHR 0x00" "c1 \<noteq> CHR 0x00" "c3 \<noteq> CHR 0x00" "c4 \<noteq> CHR 0x00"
    using glyph_Some_chars by blast+
  then have cs: "c_str ?ts = [c0, c1, CHR ''.'', c3, c4]"
    by (simp add: c_str_def NUL_def)
  have "valid_input (c_str ?ts)"
    unfolding cs using ch assms(1-4)
    by (simp add: valid_input_def leading_dot_def nondots_def supported_def)
  then have "LC4LEDDisplayMemWrite ?ts buf = Inr (spec_encode (c_str ?ts) [])"
    using assms(5) by (rule LC4_valid)
  with cs ch show ?thesis by simp
qed

lemma length5:
  assumes "length (b :: 'a list) = 5"
  obtains c0 c1 c2 c3 c4 where "b = [c0, c1, c2, c3, c4]"
  using assms by (auto simp: length_Suc_conv eval_nat_numeral)

lemma length7:
  assumes "length (b :: 'a list) = 7"
  obtains c0 c1 c2 c3 c4 c5 c6 where "b = [c0, c1, c2, c3, c4, c5, c6]"
  using assms by (auto simp: length_Suc_conv eval_nat_numeral)

lemma setup_modes: "SMTHOUR = 1" "SMUHOUR = 2" "SMTMINUTE = 3" "SMUMINUTE = 4" "SMIDLE = 0"
  by (simp_all add: SMTHOUR_def SMUHOUR_def SMTMINUTE_def SMUMINUTE_def SMIDLE_def)

lemma clockSetup_ok:
  assumes wf: "wf_sketch s" and m: "m \<in> {SMTHOUR, SMUHOUR, SMTMINUTE, SMUMINUTE}"
    and d: "digits_ok (if m = SMTHOUR then clock s else tmpClock s)"
  shows "\<exists>s'. clockSetup m s = Inr s' \<and> wf_sketch s' \<and> setup_string (timeString s')
          \<and> clock s' = clock s \<and> setupMode s' = setupMode s
          \<and> tmpClock s' = (if m = SMTHOUR then take 4 (clock s) else tmpClock s)
          \<and> displaySwitch s' = displaySwitch s"
proof -
  from wf obtain h1 h0 m1 m0 x where c: "clock s = [h1, h0, m1, m0, x]"
    by (auto simp: wf_sketch_def elim: length5)
  from wf obtain t0 t1 t2 t3 where t: "tmpClock s = [t0, t1, t2, t3]"
    by (auto simp: wf_sketch_def elim: length4)
  from wf obtain c0 c1 c2 c3 c4 c5 c6 where ts: "timeString s = [c0, c1, c2, c3, c4, c5, c6]"
    by (auto simp: wf_sketch_def elim: length7)
  from wf have lb: "length (displayBuf s) = 4" by (simp add: wf_sketch_def)
  define u where "u = (if m = SMTHOUR then [h1, h0, m1, m0] else [t0, t1, t2, t3])"
  have u4: "u = [u ! 0, u ! 1, u ! 2, u ! 3]" by (simp add: u_def)
  from d c t have "u ! 0 \<le> 9" "u ! 1 \<le> 9" "u ! 2 \<le> 9" "u ! 3 \<le> 9"
    by (simp_all add: digits_ok_def u_def split: if_splits)
  then have g: "glyph (digit_char (u ! 0)) \<noteq> None" "glyph (digit_char (u ! 1)) \<noteq> None"
    "glyph (digit_char (u ! 2)) \<noteq> None" "glyph (digit_char (u ! 3)) \<noteq> None"
    by (simp_all only: glyph_digit_char not_False_eq_True)
  have tmp: "(if m = SMTHOUR then copy4 (tmpClock s) (clock s) else tmpClock s) = u"
    by (simp add: c t copy4_def u_def)
  note enc = LC4_time_string [OF _ _ _ _ lb]
  from m consider "m = 1" | "m = 2" | "m = 3" | "m = 4" by (auto simp: setup_modes)
  then show ?thesis
  proof cases
    case 1
    with g tmp ts c t wf show ?thesis
      by (simp add: clockSetup_def Let_def setup_modes enc glyph_space wf_sketch_def
          setup_string_def u_def)
  next
    case 2
    with g tmp ts c t wf show ?thesis
      by (simp add: clockSetup_def Let_def setup_modes enc glyph_space wf_sketch_def
          setup_string_def u_def)
  next
    case 3
    with g tmp ts c t wf show ?thesis
      by (simp add: clockSetup_def Let_def setup_modes enc glyph_space wf_sketch_def
          setup_string_def u_def)
  next
    case 4
    with g tmp ts c t wf show ?thesis
      by (simp add: clockSetup_def Let_def setup_modes enc glyph_space wf_sketch_def
          setup_string_def u_def)
  qed
qed

lemma below_bound: "\<not> (6::byte) \<le> x \<Longrightarrow> x \<le> 9" "\<not> (10::byte) \<le> x \<Longrightarrow> x \<le> 9"
  "\<not> (4::byte) \<le> x \<Longrightarrow> x \<le> 3"
  by unat_arith+

lemma byte_cmp [simp]: "\<not> (3::byte) \<le> 1" "(1::byte) < 2" "(0::byte) < 2" "\<not> (2::byte) < 2"
  "(1::byte) \<le> 2" "(1::byte) \<le> 9" "(1::byte) \<noteq> 2"
  by (simp_all add: word_le_nat_alt word_less_nat_alt)

lemma unat_le3: "(x::byte) \<le> 3 \<Longrightarrow> unat x \<le> 3"
  by (simp add: word_le_nat_alt)

lemma unat_le9: "(x::byte) \<le> 9 \<Longrightarrow> unat x \<le> 9"
  by (simp add: word_le_nat_alt)

lemma adjust_switch_hours:
  assumes t0: "t0 \<le> 2" and t1: "t1 \<le> 9" and j: "unat t0 * 10 + unat t1 \<le> 23"
    and m: "m \<in> {SMTHOUR, SMUHOUR, SMTMINUTE, SMUMINUTE}"
  shows "\<exists>t' i j. adjust_switch m [t0, t1, t2, t3] = Some (t', i, j) \<and> length t' = 4
           \<and> (i, j) \<in> {(0, 0), (1, 1), (2, 3), (3, 4)} \<and> t' ! i \<le> 9
           \<and> t' ! 0 \<le> 2 \<and> t' ! 1 \<le> 9
           \<and> (m \<noteq> SMTHOUR \<longrightarrow> hours_value t' \<le> 23)
           \<and> (m = SMTHOUR \<longrightarrow> t' ! 0 = (if t0 = 2 then 0 else t0 + 1) \<and> t' ! 1 = t1
                 \<and> hours_value t' \<le> 29)"
proof -
  from m consider "m = 1" | "m = 2" | "m = 3" | "m = 4" by (auto simp: setup_modes)
  then show ?thesis
  proof cases
    case 1
    from t0 consider "t0 = 0" | "t0 = 1" | "t0 = 2" using le2_cases by blast
    then show ?thesis
      using 1 t1 unat_le9 [OF t1]
      by cases (simp_all add: adjust_switch_def setup_modes Let_def hours_value_def)
  next
    case 2
    from t0 consider "t0 = 0" | "t0 = 1" | "t0 = 2" using le2_cases by blast
    then show ?thesis
    proof cases
      case 1
      show ?thesis
      proof (cases "10 \<le> t1 + 1")
        case True
        with 1 2 show ?thesis
          by (simp add: adjust_switch_def setup_modes Let_def hours_value_def)
      next
        case False
        then have "t1 + 1 \<le> 9" by (rule below_bound)
        with False 1 2 unat_le9 [of "t1 + 1"] show ?thesis
          by (simp add: adjust_switch_def setup_modes Let_def hours_value_def)
      qed
    next
      case 2
      note two = \<open>m = 2\<close>
      show ?thesis
      proof (cases "10 \<le> t1 + 1")
        case True
        with 2 two show ?thesis
          by (simp add: adjust_switch_def setup_modes Let_def hours_value_def)
      next
        case False
        then have "t1 + 1 \<le> 9" by (rule below_bound)
        with False 2 two unat_le9 [of "t1 + 1"] show ?thesis
          by (simp add: adjust_switch_def setup_modes Let_def hours_value_def)
      qed
    next
      case 3
      note two = \<open>m = 2\<close>
      show ?thesis
      proof (cases "4 \<le> t1 + 1")
        case True
        with 3 two show ?thesis
          by (simp add: adjust_switch_def setup_modes Let_def hours_value_def)
      next
        case False
        then have "t1 + 1 \<le> 3" by (rule below_bound)
        moreover from this have "t1 + 1 \<le> 9" by unat_arith
        ultimately show ?thesis using False 3 two unat_le3 [of "t1 + 1"]
          by (simp add: adjust_switch_def setup_modes Let_def hours_value_def)
      qed
    qed
  next
    case 3
    show ?thesis
    proof (cases "6 \<le> t2 + 1")
      case True
      with 3 t0 t1 j show ?thesis
        by (simp add: adjust_switch_def setup_modes Let_def hours_value_def)
    next
      case False
      then have "t2 + 1 \<le> 9" by (rule below_bound)
      with False 3 t0 t1 j show ?thesis
        by (simp add: adjust_switch_def setup_modes Let_def hours_value_def)
    qed
  next
    case 4
    show ?thesis
    proof (cases "10 \<le> t3 + 1")
      case True
      with 4 t0 t1 j show ?thesis
        by (simp add: adjust_switch_def setup_modes Let_def hours_value_def)
    next
      case False
      then have "t3 + 1 \<le> 9" by (rule below_bound)
      with False 4 t0 t1 j show ?thesis
        by (simp add: adjust_switch_def setup_modes Let_def hours_value_def)
    qed
  qed
qed

lemma clockAdjust_hours:
  assumes wf: "wf_sketch s" and ss: "setup_string (timeString s)"
    and m: "m \<in> {SMTHOUR, SMUHOUR, SMTMINUTE, SMUMINUTE}"
    and h: "tmpClock s ! 0 \<le> 2" "tmpClock s ! 1 \<le> 9" "hours_value (tmpClock s) \<le> 23"
  shows "\<exists>s'. clockAdjust m s = Inr s' \<and> wf_sketch s' \<and> setup_string (timeString s')
          \<and> clock s' = clock s \<and> setupMode s' = setupMode s
          \<and> tmpClock s' ! 0 \<le> 2 \<and> tmpClock s' ! 1 \<le> 9
          \<and> (m \<noteq> SMTHOUR \<longrightarrow> hours_value (tmpClock s') \<le> 23)
          \<and> (m = SMTHOUR \<longrightarrow>
                tmpClock s' ! 0 = (if tmpClock s ! 0 = 2 then 0 else tmpClock s ! 0 + 1)
                \<and> tmpClock s' ! 1 = tmpClock s ! 1 \<and> hours_value (tmpClock s') \<le> 29)"
proof -
  from wf obtain t0 t1 t2 t3 where t: "tmpClock s = [t0, t1, t2, t3]"
    by (auto simp: wf_sketch_def elim: length4)
  from ss obtain c0 c1 c2 c3 c4 c5 c6 where ts: "timeString s = [c0, c1, c2, c3, c4, c5, c6]"
    by (auto simp: setup_string_def elim: length7)
  with ss have c: "glyph c0 \<noteq> None" "glyph c1 \<noteq> None" "c2 = CHR ''.''" "glyph c3 \<noteq> None"
    "glyph c4 \<noteq> None" "c5 = NUL"
    by (simp_all add: setup_string_def)
  from wf have lb: "length (displayBuf s) = 4" by (simp add: wf_sketch_def)
  from h t have "t0 \<le> 2" "t1 \<le> 9" "unat t0 * 10 + unat t1 \<le> 23"
    by (simp_all add: hours_value_def)
  from adjust_switch_hours [OF this m, of t2 t3]
  obtain t' i j where a: "adjust_switch m [t0, t1, t2, t3] = Some (t', i, j)" "length t' = 4"
    "(i, j) \<in> {(0, 0), (1, 1), (2, 3), (3, 4)}" "t' ! i \<le> 9"
    "t' ! 0 \<le> 2" "t' ! 1 \<le> 9" "m \<noteq> SMTHOUR \<longrightarrow> hours_value t' \<le> 23"
    "m = SMTHOUR \<longrightarrow> t' ! 0 = (if t0 = 2 then 0 else t0 + 1) \<and> t' ! 1 = t1
       \<and> hours_value t' \<le> 29"
    by blast
  from a(4) have g: "glyph (digit_char (t' ! i)) \<noteq> None" by (rule glyph_digit_char)
  note enc = LC4_time_string [OF _ _ _ _ lb]
  from a(3) consider "j = 0" | "j = 1" | "j = 3" | "j = 4" by auto
  then show ?thesis
  proof cases
    case 1
    with a g c ts t wf show ?thesis
      by (simp add: clockAdjust_def Let_def enc wf_sketch_def setup_string_def)
  next
    case 2
    with a g c ts t wf show ?thesis
      by (simp add: clockAdjust_def Let_def enc wf_sketch_def setup_string_def)
  next
    case 3
    with a g c ts t wf show ?thesis
      by (simp add: clockAdjust_def Let_def enc wf_sketch_def setup_string_def)
  next
    case 4
    with a g c ts t wf show ?thesis
      by (simp add: clockAdjust_def Let_def enc wf_sketch_def setup_string_def)
  qed
qed

lemma copy4_take: "length dst = 4 \<Longrightarrow> 4 \<le> length src \<Longrightarrow> copy4 dst src = take 4 src"
proof -
  assume d: "length dst = 4" and s: "4 \<le> length src"
  from d obtain a b c e where "dst = [a, b, c, e]" by (rule length4)
  moreover from s obtain w x y z r where "src = w # x # y # z # r"
    by (auto simp: length_Suc_conv eval_nat_numeral Suc_le_length_iff)
  ultimately show ?thesis by (simp add: copy4_def)
qed

lemma loop_button_enter:
  assumes wf: "wf_sketch s" and m: "setupMode s = SMIDLE" and d: "digits_ok (clock s)"
  shows "\<exists>s'. loop_button BSETUP s = Inr s' \<and> wf_sketch s' \<and> setupMode s' = SMTHOUR
          \<and> clock s' = clock s \<and> tmpClock s' = take 4 (clock s)"
proof -
  let ?s = "s\<lparr>setupMode := SMTHOUR\<rparr>"
  have "wf_sketch ?s" using wf by (simp add: wf_sketch_def)
  moreover have "SMTHOUR \<in> {SMTHOUR, SMUHOUR, SMTMINUTE, SMUMINUTE}" by simp
  moreover have "digits_ok (if SMTHOUR = SMTHOUR then clock ?s else tmpClock ?s)"
    using d by simp
  ultimately obtain s' where s': "clockSetup SMTHOUR ?s = Inr s'" "wf_sketch s'"
    "clock s' = clock ?s" "setupMode s' = setupMode ?s"
    "tmpClock s' = (if SMTHOUR = SMTHOUR then take 4 (clock ?s) else tmpClock ?s)"
    using clockSetup_ok [of ?s SMTHOUR] by blast
  have "loop_button BSETUP s = clockSetup SMTHOUR ?s"
    using m by (simp add: loop_button_def Let_def setup_modes word_less_nat_alt)
  with s' show ?thesis by simp
qed

lemma loop_button_next:
  assumes wf: "wf_sketch s" and m: "setupMode s \<in> {SMTHOUR, SMUHOUR, SMTMINUTE}"
    and d: "digits_ok (tmpClock s)"
  shows "\<exists>s'. loop_button BSETUP s = Inr s' \<and> wf_sketch s' \<and> setupMode s' = setupMode s + 1
          \<and> clock s' = clock s \<and> tmpClock s' = tmpClock s"
proof -
  let ?m = "setupMode s + 1"
  let ?s = "s\<lparr>setupMode := ?m\<rparr>"
  from m have mm: "?m \<in> {SMTHOUR, SMUHOUR, SMTMINUTE, SMUMINUTE}" "?m \<noteq> SMTHOUR"
    "\<not> ?m > SMUMINUTE" "?m \<noteq> SMIDLE"
    by (auto simp: setup_modes word_less_nat_alt)
  have "wf_sketch ?s" using wf by (simp add: wf_sketch_def)
  moreover have "digits_ok (if ?m = SMTHOUR then clock ?s else tmpClock ?s)"
    using d mm by simp
  ultimately obtain s' where s': "clockSetup ?m ?s = Inr s'" "wf_sketch s'"
    "clock s' = clock ?s" "setupMode s' = setupMode ?s"
    "tmpClock s' = (if ?m = SMTHOUR then take 4 (clock ?s) else tmpClock ?s)"
    using clockSetup_ok [of ?s ?m] mm(1) by blast
  have "loop_button BSETUP s = clockSetup ?m ?s"
    using mm by (simp add: loop_button_def Let_def)
  with s' mm show ?thesis by simp
qed

lemma loop_button_commit:
  assumes wf: "wf_sketch s" and m: "setupMode s = SMUMINUTE"
  shows "loop_button BSETUP s =
           Inr (s\<lparr>setupMode := SMIDLE, clock := tmpClock s @ [0], displaySwitch := True\<rparr>)"
proof -
  from wf obtain h1 h0 m1 m0 x where c: "clock s = [h1, h0, m1, m0, x]"
    by (auto simp: wf_sketch_def elim: length5)
  from wf obtain t0 t1 t2 t3 where t: "tmpClock s = [t0, t1, t2, t3]"
    by (auto simp: wf_sketch_def elim: length4)
  show ?thesis
    using m c t by (simp add: loop_button_def Let_def setup_modes copy4_def word_less_nat_alt)
qed

lemma setup_cycle:
  assumes wf: "wf_sketch s" and idle: "setupMode s = SMIDLE" and d: "digits_ok (clock s)"
  shows "\<exists>s4 s5.
           loop_buttons [BSETUP, BSETUP, BSETUP, BSETUP] s = Inr s4
           \<and> setupMode s4 = SMUMINUTE \<and> clock s4 = clock s
           \<and> loop_buttons [BSETUP, BSETUP, BSETUP, BSETUP, BSETUP] s = Inr s5
           \<and> setupMode s5 = SMIDLE \<and> clock s5 = take 4 (clock s) @ [0]"
proof -
  from loop_button_enter [OF wf idle d] obtain s1 where
    s1: "loop_button BSETUP s = Inr s1" "wf_sketch s1" "setupMode s1 = SMTHOUR"
      "clock s1 = clock s" "tmpClock s1 = take 4 (clock s)" by blast
  from d s1 have d1: "digits_ok (tmpClock s1)" by (simp add: digits_ok_def)
  from loop_button_next [OF s1(2) _ d1] s1 obtain s2 where
    s2: "loop_button BSETUP s1 = Inr s2" "wf_sketch s2" "setupMode s2 = SMUHOUR"
      "clock s2 = clock s" "tmpClock s2 = take 4 (clock s)"
    by (auto simp: setup_modes)
  from d s2 have d2: "digits_ok (tmpClock s2)" by (simp add: digits_ok_def)
  from loop_button_next [OF s2(2) _ d2] s2 obtain s3 where
    s3: "loop_button BSETUP s2 = Inr s3" "wf_sketch s3" "setupMode s3 = SMTMINUTE"
      "clock s3 = clock s" "tmpClock s3 = take 4 (clock s)"
    by (auto simp: setup_modes)
  from d s3 have d3: "digits_ok (tmpClock s3)" by (simp add: digits_ok_def)
  from loop_button_next [OF s3(2) _ d3] s3 obtain s4 where
    s4: "loop_button BSETUP s3 = Inr s4" "wf_sketch s4" "setupMode s4 = SMUMINUTE"
      "clock s4 = clock s" "tmpClock s4 = take 4 (clock s)"
    by (auto simp: setup_modes)
  let ?s5 = "s4\<lparr>setupMode := SMIDLE, clock := tmpClock s4 @ [0], displaySwitch := True\<rparr>"
  have s5: "loop_button BSETUP s4 = Inr ?s5" using s4(2,3) by (rule loop_button_commit)
  have "loop_buttons [BSETUP, BSETUP, BSETUP, BSETUP] s = Inr s4"
    using s1(1) s2(1) s3(1) s4(1) by simp
  moreover have "loop_buttons [BSETUP, BSETUP, BSETUP, BSETUP, BSETUP] s = Inr ?s5"
    using s1(1) s2(1) s3(1) s4(1) s5 by simp
  moreover have "setupMode ?s5 = SMIDLE" "clock ?s5 = take 4 (clock s) @ [0]"
    using s4 by simp_all
  ultimately show ?thesis using s4(3,4) by blast
qed

lemma length_minute_cascade: "length (minute_cascade c) = length c"
  by (simp add: minute_cascade_def Let_def)

lemma tick_frame:
  "setupMode (TIMER1_COMPA_clock s) = setupMode s"
  "tmpClock (TIMER1_COMPA_clock s) = tmpClock s"
  "wf_sketch s \<Longrightarrow> wf_sketch (TIMER1_COMPA_clock s)"
  by (simp_all add: TIMER1_COMPA_clock_def Let_def wf_sketch_def length_minute_cascade)

lemma ticks_frame:
  "setupMode (ticks n s) = setupMode s"
  "tmpClock (ticks n s) = tmpClock s"
  "wf_sketch s \<Longrightarrow> wf_sketch (ticks n s)"
  by (induction n arbitrary: s) (simp_all add: tick_frame)

lemma setup_cycle_ticks:
  assumes wf: "wf_sketch s" and idle: "setupMode s = SMIDLE" and d: "digits_ok (clock s)"
  shows "\<exists>s1 s2 s3 s4 s5.
           loop_button BSETUP s = Inr s1
           \<and> loop_button BSETUP (ticks n1 s1) = Inr s2
           \<and> loop_button BSETUP (ticks n2 s2) = Inr s3
           \<and> loop_button BSETUP (ticks n3 s3) = Inr s4
           \<and> loop_button BSETUP (ticks n4 s4) = Inr s5
           \<and> setupMode s5 = SMIDLE \<and> clock s5 = take 4 (clock s) @ [0]"
proof -
  from loop_button_enter [OF wf idle d] obtain s1 where
    s1: "loop_button BSETUP s = Inr s1" "wf_sketch s1" "setupMode s1 = SMTHOUR"
      "tmpClock s1 = take 4 (clock s)" by blast
  let ?t1 = "ticks n1 s1"
  have t1: "wf_sketch ?t1" "setupMode ?t1 \<in> {SMTHOUR, SMUHOUR, SMTMINUTE}"
    "digits_ok (tmpClock ?t1)"
    using s1 d by (simp_all add: ticks_frame digits_ok_def)
  from loop_button_next [OF t1] obtain s2 where
    s2: "loop_button BSETUP ?t1 = Inr s2" "wf_sketch s2" "setupMode s2 = SMUHOUR"
      "tmpClock s2 = take 4 (clock s)"
    using s1 by (auto simp: ticks_frame setup_modes)
  let ?t2 = "ticks n2 s2"
  have t2: "wf_sketch ?t2" "setupMode ?t2 \<in> {SMTHOUR, SMUHOUR, SMTMINUTE}"
    "digits_ok (tmpClock ?t2)"
    using s2 d by (simp_all add: ticks_frame digits_ok_def)
  from loop_button_next [OF t2] obtain s3 where
    s3: "loop_button BSETUP ?t2 = Inr s3" "wf_sketch s3" "setupMode s3 = SMTMINUTE"
      "tmpClock s3 = take 4 (clock s)"
    using s2 by (auto simp: ticks_frame setup_modes)
  let ?t3 = "ticks n3 s3"
  have t3: "wf_sketch ?t3" "setupMode ?t3 \<in> {SMTHOUR, SMUHOUR, SMTMINUTE}"
    "digits_ok (tmpClock ?t3)"
    using s3 d by (simp_all add: ticks_frame digits_ok_def)
  from loop_button_next [OF t3] obtain s4 where
    s4: "loop_button BSETUP ?t3 = Inr s4" "wf_sketch s4" "setupMode s4 = SMUMINUTE"
      "tmpClock s4 = take 4 (clock s)"
    using s3 by (auto simp: ticks_frame setup_modes)
  let ?t4 = "ticks n4 s4"
  have t4: "wf_sketch ?t4" "setupMode ?t4 = SMUMINUTE"
    using s4 by (simp_all add: ticks_frame)
  let ?s5 = "?t4\<lparr>setupMode := SMIDLE, clock := tmpClock ?t4 @ [0], displaySwitch := True\<rparr>"
  have s5: "loop_button BSETUP ?t4 = Inr ?s5" using t4 by (rule loop_button_commit)
  have "setupMode ?s5 = SMIDLE" "clock ?s5 = take 4 (clock s) @ [0]"
    using s4 by (simp_all add: ticks_frame)
  with s1(1) s2(1) s3(1) s4(1) s5 show ?thesis by blast
qed


subsection \<open>The claims about the adjustment\<close>

text \<open>
  Claim C3: after every increment of a field, on a shadow clock that satisfies the
  24-hour constraint, the hour is at most 23.  The increment of the tens of hours
  breaks this.  With the shadow clock at 19:00 it gives 29:00: the \<open>case\<close> for the tens
  tests the tens digit alone, and the test on both digits stands only in the \<open>case\<close>
  for the units.  Pressing the setup button, the up button once and the setup button
  four more times brings 29:00 into the live clock, and at 29:59:59 the timer, which
  compares the units of hours with 4 and 10 for equality, leaves 2 and 10 as the
  digits of the hour.
\<close>

theorem clock_adjust_hours_exceeds_23:
  "clockAdjust SMTHOUR
     \<lparr>clock = [1, 9, 0, 0, 0], tmpClock = [1, 9, 0, 0], setupMode = SMTHOUR,
      timeString = [CHR ''1'', CHR '' '', CHR ''.'', CHR '' '', CHR '' '', NUL, NUL],
      displayBuf = [ONE, BLANK AND DP, BLANK, BLANK], displaySwitch = True\<rparr>
     = Inr \<lparr>clock = [1, 9, 0, 0, 0], tmpClock = [2, 9, 0, 0], setupMode = SMTHOUR,
            timeString = [CHR ''2'', CHR '' '', CHR ''.'', CHR '' '', CHR '' '', NUL, NUL],
            displayBuf = [TWO, BLANK AND DP, BLANK, BLANK], displaySwitch = True\<rparr>
   \<and> hours_value [1, 9, 0, 0] = 19 \<and> hours_value [2, 9, 0, 0] = 29
   \<and> loop_buttons [BSETUP, BUP, BSETUP, BSETUP, BSETUP, BSETUP]
        (initial_sketch\<lparr>clock := [1, 9, 0, 0, 0]\<rparr>)
     = Inr \<lparr>clock = [2, 9, 0, 0, 0], tmpClock = [2, 9, 0, 0], setupMode = SMIDLE,
            timeString = [CHR ''2'', CHR ''9'', CHR ''.'', CHR ''0'', CHR ''0'', NUL, NUL],
            displayBuf = [TWO, NINE AND DP, ZERO, ZERO], displaySwitch = True\<rparr>
   \<and> clock (TIMER1_COMPA_clock (initial_sketch\<lparr>clock := [2, 9, 5, 9, 59]\<rparr>))
     = [2, 10, 0, 0, 0]"
  by (simp add: loop_button_def clockSetup_def clockAdjust_def adjust_switch_def copy4_def
      initial_sketch_def setup_modes BSETUP_def BUP_def Let_def digit_char_values
      hours_value_def LC4LEDDisplayMemWrite_def encode_body_def c_str_def NUL_def
      consecutive_dots_def glyph_def word_less_nat_alt word_le_nat_alt
      TIMER1_COMPA_clock_def minute_cascade_def)

text \<open>
  Claim C5, as the specification has it: from the idle mode with the clock at 23:59,
  four presses of the setup button and no increment lead back to the idle mode and
  leave the clock as it was but for the seconds, which are 0.  After four presses the
  sketch is in the mode for the units of minutes, and the seconds, here 30, are
  untouched.
\<close>

theorem four_setup_presses_counterexample:
  "loop_buttons [BSETUP, BSETUP, BSETUP, BSETUP] (initial_sketch\<lparr>clock := [2, 3, 5, 9, 30]\<rparr>)
     = Inr \<lparr>clock = [2, 3, 5, 9, 30], tmpClock = [2, 3, 5, 9], setupMode = SMUMINUTE,
            timeString = [CHR ''2'', CHR ''3'', CHR ''.'', CHR ''5'', CHR ''9'', NUL, NUL],
            displayBuf = [TWO, THREE AND DP, FIVE, NINE], displaySwitch = True\<rparr>
   \<and> SMUMINUTE \<noteq> SMIDLE"
  by (simp add: loop_button_def clockSetup_def copy4_def initial_sketch_def setup_modes
      BSETUP_def Let_def digit_char_values LC4LEDDisplayMemWrite_def encode_body_def
      c_str_def NUL_def consecutive_dots_def glyph_def word_less_nat_alt word_le_nat_alt)

text \<open>
  Claim C5, amended: from the idle mode with the clock at 23:59, five presses of the
  setup button and no increment lead back to the idle mode and leave the clock at
  23:59 with the seconds at 0.  The second part states the same with any numbers of
  ticks of the timer between the presses: the ticks change the live clock, and the
  fifth press writes the snapshot back.
\<close>

theorem five_setup_presses:
  assumes "wf_sketch s" "setupMode s = SMIDLE" "take 4 (clock s) = [2, 3, 5, 9]"
  shows "(\<exists>s5. loop_buttons [BSETUP, BSETUP, BSETUP, BSETUP, BSETUP] s = Inr s5
              \<and> setupMode s5 = SMIDLE \<and> clock s5 = [2, 3, 5, 9, 0])
         \<and> (\<exists>s1 s2 s3 s4 s5.
              loop_button BSETUP s = Inr s1
              \<and> loop_button BSETUP (ticks n1 s1) = Inr s2
              \<and> loop_button BSETUP (ticks n2 s2) = Inr s3
              \<and> loop_button BSETUP (ticks n3 s3) = Inr s4
              \<and> loop_button BSETUP (ticks n4 s4) = Inr s5
              \<and> setupMode s5 = SMIDLE \<and> clock s5 = [2, 3, 5, 9, 0])"
proof -
  from assms(3) have d: "digits_ok (clock s)" by (simp add: digits_ok_def)
  from setup_cycle [OF assms(1,2) d] assms(3)
  have "\<exists>s5. loop_buttons [BSETUP, BSETUP, BSETUP, BSETUP, BSETUP] s = Inr s5
              \<and> setupMode s5 = SMIDLE \<and> clock s5 = [2, 3, 5, 9, 0]"
    by auto
  moreover from setup_cycle_ticks [OF assms(1,2) d, of n1 n2 n3 n4] assms(3)
  have "\<exists>s1 s2 s3 s4 s5.
              loop_button BSETUP s = Inr s1
              \<and> loop_button BSETUP (ticks n1 s1) = Inr s2
              \<and> loop_button BSETUP (ticks n2 s2) = Inr s3
              \<and> loop_button BSETUP (ticks n3 s3) = Inr s4
              \<and> loop_button BSETUP (ticks n4 s4) = Inr s5
              \<and> setupMode s5 = SMIDLE \<and> clock s5 = [2, 3, 5, 9, 0]"
    by simp
  ultimately show ?thesis by blast
qed

theorem five_setup_presses_witness:
  "wf_sketch (initial_sketch\<lparr>clock := [2, 3, 5, 9, 30]\<rparr>)
   \<and> setupMode (initial_sketch\<lparr>clock := [2, 3, 5, 9, 30]\<rparr>) = SMIDLE
   \<and> (\<exists>s5. loop_buttons [BSETUP, BSETUP, BSETUP, BSETUP, BSETUP]
               (initial_sketch\<lparr>clock := [2, 3, 5, 9, 30]\<rparr>) = Inr s5
            \<and> setupMode s5 = SMIDLE \<and> clock s5 = [2, 3, 5, 9, 0])
   \<and> (\<exists>s1 s2 s3 s4 s5.
          loop_button BSETUP (initial_sketch\<lparr>clock := [2, 3, 5, 9, 30]\<rparr>) = Inr s1
          \<and> loop_button BSETUP (ticks 40 s1) = Inr s2
          \<and> loop_button BSETUP (ticks 0 s2) = Inr s3
          \<and> loop_button BSETUP (ticks 1 s3) = Inr s4
          \<and> loop_button BSETUP (ticks 2 s4) = Inr s5
          \<and> setupMode s5 = SMIDLE \<and> clock s5 = [2, 3, 5, 9, 0])"
proof -
  let ?s = "initial_sketch\<lparr>clock := [2, 3, 5, 9, 30]\<rparr>"
  have wf: "wf_sketch ?s" by (simp add: wf_sketch_def initial_sketch_def)
  have idle: "setupMode ?s = SMIDLE" by (simp add: initial_sketch_def)
  have c: "take 4 (clock ?s) = [2, 3, 5, 9]" by simp
  from five_setup_presses [OF wf idle c, of 40 0 1 2] wf idle show ?thesis by blast
qed

section \<open>Properties of the button reader\<close>



lemma presses_stable_high:
  "held rs \<Longrightarrow> buttonState d = HIGH \<Longrightarrow> presses rs d = 0"
proof (induction rs arbitrary: d)
  case Nil
  then show ?case by simp
next
  case (Cons r rs)
  let ?d = "snd (debounce_step r d)"
  from Cons.prems have "buttonState ?d = HIGH" "held rs" "\<not> fst (debounce_step r d)"
    by (simp_all add: debounce_step_def Let_def held_def)
  with Cons.IH [of ?d] show ?case by simp
qed

lemma presses_held_le1: "held rs \<Longrightarrow> presses rs d \<le> 1"
proof (induction rs arbitrary: d)
  case Nil
  then show ?case by simp
next
  case (Cons r rs)
  let ?d = "snd (debounce_step r d)"
  from Cons.prems have h: "held rs" and r: "pin r = HIGH" by (simp_all add: held_def)
  show ?case
  proof (cases "fst (debounce_step r d)")
    case True
    with r have "buttonState ?d = HIGH" by (simp add: debounce_step_def Let_def)
    with h have "presses rs ?d = 0" by (rule presses_stable_high)
    with True show ?thesis by simp
  next
    case False
    with Cons.IH [OF h, of ?d] show ?thesis by simp
  qed
qed








lemma button_codes [simp]: "BSETUP \<noteq> BUP" "BSETUP \<noteq> BNONE" "BUP \<noteq> BNONE"
  "BUP \<noteq> BSETUP" "BNONE \<noteq> BSETUP" "BNONE \<noteq> BUP"
  by (simp_all add: BSETUP_def BUP_def BNONE_def)






subsection \<open>The claim about the reader\<close>




end
